theory Spec2Isabelle
  imports Complex_Main "HOL-Library.Word" "HOL-Library.Multiset" "HOL-Library.Sublist"
begin

section \<open>FineImgur: a caching image relay (src/index.js)\<close>

text \<open>
  The relay is one file of JavaScript for Node. The embedding follows it function by
  function. JavaScript strings are modelled as \<^typ>\<open>string\<close>: a \<^typ>\<open>char\<close> stands for one
  UTF-16 code unit below 256, which covers every literal of the source. Integers that the
  source keeps in doubles (byte counts, sizes, millisecond timestamps) are exact there
  below \<open>2^53\<close> and are modelled as \<^typ>\<open>nat\<close> and \<^typ>\<open>int\<close>. The numbers of the placeholder
  come from the configuration file and are modelled as values of the Number type.
\<close>

subsection \<open>String helpers of the language\<close>

definition endsWith :: "string \<Rightarrow> string \<Rightarrow> bool" where
  "endsWith s suf = (length suf \<le> length s \<and> drop (length s - length suf) s = suf)"

definition startsWith :: "string \<Rightarrow> string \<Rightarrow> bool" where
  "startsWith s pre = (take (length pre) s = pre)"

text \<open>\<open>String.prototype.replace(/c/g, r)\<close>: every occurrence of one character.\<close>

definition replaceAll :: "char \<Rightarrow> string \<Rightarrow> string \<Rightarrow> string" where
  "replaceAll c r s = concat (map (\<lambda>x. if x = c then r else [x]) s)"

text \<open>\<open>text.split(' ')\<close>: never empty, \<open>''.split(' ')\<close> is \<open>['']\<close>.\<close>

fun split_sp :: "string \<Rightarrow> string list" where
  "split_sp [] = [[]]"
| "split_sp (c # cs) =
     (if c = CHR '' '' then [] # split_sp cs
      else (case split_sp cs of w # ws \<Rightarrow> (c # w) # ws | [] \<Rightarrow> [[c]]))"

text \<open>
  \<open>String.prototype.trim\<close> strips white space and line terminators from both ends;
  below 256 these are TAB, LF, VT, FF, CR, SP and NBSP.
\<close>

definition is_ws :: "char \<Rightarrow> bool" where
  "is_ws c = (of_char c \<in> {9, 10, 11, 12, 13, 32, 160 :: nat})"

definition trim :: "string \<Rightarrow> string" where
  "trim s = rev (dropWhile is_ws (rev (dropWhile is_ws s)))"

text \<open>Decimal digits of a natural number, as a template literal prints an integer.\<close>

fun dec :: "nat \<Rightarrow> string" where
  "dec n = (if n < 10 then [''0123456789'' ! n]
            else dec (n div 10) @ [''0123456789'' ! (n mod 10)])"

declare dec.simps [simp del]

subsection \<open>Values and builtins of the runtime\<close>

text \<open>
  A JSON value, as \<open>JSON.parse\<close> returns it (a number literal beyond the range of a
  double, which parses to an infinity, is not among them). \<open>truthy\<close> is the language's
  boolean coercion and \<open>get_prop\<close> a property read (\<open>None\<close> is \<open>undefined\<close>).
\<close>

datatype json =
    JNull | JBool bool | JNum rat | JStr string | JArr "json list" | JObj "(string \<times> json) list"

fun truthy :: "json \<Rightarrow> bool" where
  "truthy JNull = False"
| "truthy (JBool b) = b"
| "truthy (JNum r) = (r \<noteq> 0)"
| "truthy (JStr s) = (s \<noteq> [])"
| "truthy (JArr vs) = True"
| "truthy (JObj kvs) = True"

fun get_prop :: "json \<Rightarrow> string \<Rightarrow> json option" where
  "get_prop (JObj kvs) k = map_of kvs k"
| "get_prop v k = None"

datatype error =
    ENOENT | EPERM | EACCES | ERR_HTTP_HEADERS_SENT | ERR_HTTP_INVALID_STATUS_CODE
  | ERR_INVALID_CHAR | TypeError

text \<open>A value of the Number type: a finite double, \<open>NaN\<close> or an infinity.\<close>

datatype jsnum = Num rat | NaN | PosInf | NegInf

text \<open>
  The builtins the program calls and does not define are parameters of the model, so
  every theorem holds for whatever they compute: \<open>JSON.parse\<close> (\<open>None\<close> when it throws),
  \<open>JSON.stringify\<close>, the SHA-256 digest, \<open>Number\<close> on a string, the rounding of an
  exact arithmetic result to the nearest double (\<open>to_double\<close>), \<open>Number.prototype.toString\<close>
  on a finite double, \<open>new URL(url, base)\<close> (\<open>None\<close> when it throws; the protocol and
  \<open>pathname + search\<close>) and \<open>Date.prototype.toISOString\<close>.
\<close>

record node =
  JSON_parse :: "string \<Rightarrow> json option"
  JSON_stringify :: "json \<Rightarrow> string"
  sha256 :: "string \<Rightarrow> 256 word"
  Number_of :: "string \<Rightarrow> jsnum"
  to_double :: "rat \<Rightarrow> jsnum"
  Number_toString :: "rat \<Rightarrow> string"
  URL_parse :: "string \<Rightarrow> string \<Rightarrow> (string \<times> string) option"
  toISOString :: "int \<Rightarrow> string"

text \<open>\<open>Buffer.byteLength\<close>: the UTF-8 length, two bytes for a code unit from 128 to 255.\<close>

definition byteLength :: "string \<Rightarrow> nat" where
  "byteLength s = sum_list (map (\<lambda>c. if (of_char c :: nat) < 128 then 1 else 2) s)"

subsection \<open>Numbers and conversions of the language\<close>

text \<open>
  Arithmetic on doubles. An integer or an integer plus one half of magnitude at most
  \<open>2^52\<close> is a double, so an operation whose exact result is such a number returns it;
  every other exact result is rounded by the runtime.
\<close>

definition exact :: "rat \<Rightarrow> bool" where
  "exact q \<longleftrightarrow> of_int \<lfloor>2 * q\<rfloor> = 2 * q \<and> \<bar>q\<bar> \<le> 2 ^ 52"

definition fround :: "node \<Rightarrow> rat \<Rightarrow> jsnum" where
  "fround N q = (if exact q then Num q else to_double N q)"

text \<open>\<open>x / 2\<close>, \<open>x - y\<close> and \<open>x + y\<close>.\<close>

fun half :: "node \<Rightarrow> jsnum \<Rightarrow> jsnum" where
  "half N (Num a) = fround N (a / 2)"
| "half N NaN = NaN"
| "half N PosInf = PosInf"
| "half N NegInf = NegInf"

fun jsub :: "node \<Rightarrow> jsnum \<Rightarrow> jsnum \<Rightarrow> jsnum" where
  "jsub N (Num a) (Num b) = fround N (a - b)"
| "jsub N (Num a) NaN = NaN"
| "jsub N (Num a) PosInf = NegInf"
| "jsub N (Num a) NegInf = PosInf"
| "jsub N NaN y = NaN"
| "jsub N PosInf (Num b) = PosInf"
| "jsub N PosInf NaN = NaN"
| "jsub N PosInf PosInf = NaN"
| "jsub N PosInf NegInf = PosInf"
| "jsub N NegInf (Num b) = NegInf"
| "jsub N NegInf NaN = NaN"
| "jsub N NegInf PosInf = NegInf"
| "jsub N NegInf NegInf = NaN"

fun jadd :: "node \<Rightarrow> jsnum \<Rightarrow> jsnum \<Rightarrow> jsnum" where
  "jadd N (Num a) (Num b) = fround N (a + b)"
| "jadd N (Num a) NaN = NaN"
| "jadd N (Num a) PosInf = PosInf"
| "jadd N (Num a) NegInf = NegInf"
| "jadd N NaN y = NaN"
| "jadd N PosInf (Num b) = PosInf"
| "jadd N PosInf NaN = NaN"
| "jadd N PosInf PosInf = PosInf"
| "jadd N PosInf NegInf = NaN"
| "jadd N NegInf (Num b) = NegInf"
| "jadd N NegInf NaN = NaN"
| "jadd N NegInf PosInf = NaN"
| "jadd N NegInf NegInf = NegInf"

text \<open>
  Number to string. An integer or an integer plus one half of magnitude at most \<open>2^52\<close>
  prints in plain decimal, with \<open>.5\<close> for the half; every other finite double prints as
  the runtime prints it.
\<close>

definition numStr :: "node \<Rightarrow> jsnum \<Rightarrow> string" where
  "numStr N x =
     (case x of
        Num q \<Rightarrow>
          if exact q
          then (let m = \<lfloor>2 * q\<rfloor>
                in (if m < 0 then ''-'' else []) @ dec (nat \<bar>m\<bar> div 2)
                   @ (if odd m then ''.5'' else []))
          else Number_toString N q
      | NaN \<Rightarrow> ''NaN''
      | PosInf \<Rightarrow> ''Infinity''
      | NegInf \<Rightarrow> ''-Infinity'')"

text \<open>
  A primitive value, and the conversion of a value to a primitive. The value is
  \<open>undefined\<close> or a value of \<open>JSON.parse\<close>: an object made by \<open>JSON.parse\<close> converts by
  \<open>Object.prototype.toString\<close> unless it has a property \<open>toString\<close> of its own, which is
  not callable, and then the conversion raises \<open>TypeError\<close> (\<open>None\<close>); an array converts
  by \<open>join\<close>, which prints \<open>null\<close> as the empty string and converts every other element.
  The result is the same for both hints, as \<open>valueOf\<close> never yields a primitive here.
\<close>

datatype prim = PUndefined | PNull | PBool bool | PNum rat | PStr string

fun to_string :: "node \<Rightarrow> prim \<Rightarrow> string" where
  "to_string N PUndefined = ''undefined''"
| "to_string N PNull = ''null''"
| "to_string N (PBool b) = (if b then ''true'' else ''false'')"
| "to_string N (PNum r) = numStr N (Num r)"
| "to_string N (PStr s) = s"

fun to_number :: "node \<Rightarrow> prim \<Rightarrow> jsnum" where
  "to_number N PUndefined = NaN"
| "to_number N PNull = Num 0"
| "to_number N (PBool b) = Num (if b then 1 else 0)"
| "to_number N (PNum r) = Num r"
| "to_number N (PStr s) = Number_of N s"

fun join_comma :: "string list \<Rightarrow> string" where
  "join_comma [] = []"
| "join_comma [x] = x"
| "join_comma (x # y # zs) = x @ '','' @ join_comma (y # zs)"

fun to_primitive :: "node \<Rightarrow> json \<Rightarrow> prim option" where
  "to_primitive N JNull = Some PNull"
| "to_primitive N (JBool b) = Some (PBool b)"
| "to_primitive N (JNum r) = Some (PNum r)"
| "to_primitive N (JStr s) = Some (PStr s)"
| "to_primitive N (JArr vs) =
     map_option
       (\<lambda>ps. PStr (join_comma (map (\<lambda>(v, p). if v = JNull then [] else to_string N p) (zip vs ps))))
       (those (map (to_primitive N) vs))"
| "to_primitive N (JObj kvs) =
     (if ''toString'' \<in> fst ` set kvs then None else Some (PStr ''[object Object]''))"

text \<open>A property of the destructured object, converted: \<open>undefined\<close> when it is absent.\<close>

definition read_prop :: "node \<Rightarrow> json \<Rightarrow> string \<Rightarrow> prim option" where
  "read_prop N obj k = (case get_prop obj k of None \<Rightarrow> Some PUndefined | Some v \<Rightarrow> to_primitive N v)"

subsection \<open>Configuration (typed view)\<close>

record failure_image =
  width :: int
  height :: int
  background :: string
  textColor :: string
  accentColor :: string

record config =
  port :: nat
  imgurBaseUrl :: string
  cacheDir :: string
  maxCacheBytes :: nat
  maxDownloadBytes :: nat
  failureImage :: failure_image

definition default_config :: config where
  "default_config =
     \<lparr> port = 3000, imgurBaseUrl = ''https://i.imgur.com'', cacheDir = ''./cache'',
       maxCacheBytes = 1024 * 1024 * 1024, maxDownloadBytes = 10 * 1024 * 1024,
       failureImage = \<lparr> width = 640, height = 360, background = ''#1d1d1d'',
         textColor = ''#ffffff'', accentColor = ''#ff4d4d'' \<rparr> \<rparr>"

text \<open>The object \<open>config.failureImage\<close> of a typed configuration.\<close>

definition image_json :: "failure_image \<Rightarrow> json" where
  "image_json fi =
     JObj [(''width'', JNum (of_int (width fi))), (''height'', JNum (of_int (height fi))),
           (''background'', JStr (background fi)), (''textColor'', JStr (textColor fi)),
           (''accentColor'', JStr (accentColor fi))]"

subsection \<open>Placeholder renderer\<close>

definition escapeXml :: "string \<Rightarrow> string" where
  \<open>escapeXml v =
     replaceAll (CHR 0x27) ''&#39;''
       (replaceAll (CHR 0x22) ''&quot;''
         (replaceAll CHR ''>'' ''&gt;''
           (replaceAll CHR ''<'' ''&lt;''
             (replaceAll CHR ''&'' ''&amp;'' v))))\<close>

text \<open>The \<open>for\<close> loop of \<open>wrapText\<close>: the pushed lines and the current line.\<close>

fun wrap_loop :: "nat \<Rightarrow> string list \<Rightarrow> string list \<Rightarrow> string \<Rightarrow> string list \<times> string" where
  "wrap_loop maxLength [] lines line = (lines, line)"
| "wrap_loop maxLength (word # words) lines line =
     (if length (line @ word) > maxLength
      then wrap_loop maxLength words (lines @ [trim line]) (word @ '' '')
      else wrap_loop maxLength words lines (line @ word @ '' ''))"

definition wrapText :: "string \<Rightarrow> nat \<Rightarrow> string list" where
  "wrapText text maxLength =
     (case wrap_loop maxLength (split_sp text) [] [] of
        (lines, line) \<Rightarrow> if trim line \<noteq> [] then lines @ [trim line] else lines)"

text \<open>
  \<open>renderFailureSvg\<close>. The argument \<open>img\<close> is the value of \<open>config.failureImage\<close>, which
  the function destructures: that raises \<open>TypeError\<close> on \<open>null\<close> and reads \<open>undefined\<close>
  for a property that is absent. The template converts each of the five values to a
  string on every call, and the arithmetic converts the width and the height to
  numbers; the conversions have no effect, so the call raises exactly when one of the
  five conversions to a primitive does. \<open>startY\<close> is
  \<open>height / 2 - (lines.length * lineHeight) / 2\<close> and \<open>lineY\<close> is
  \<open>startY + index * lineHeight\<close>, with \<open>lineHeight = 26\<close>.
\<close>

definition startY :: "node \<Rightarrow> prim \<Rightarrow> nat \<Rightarrow> jsnum" where
  "startY N h n = jsub N (half N (to_number N h)) (half N (fround N (of_nat n * 26)))"

definition lineY :: "node \<Rightarrow> prim \<Rightarrow> nat \<Rightarrow> nat \<Rightarrow> jsnum" where
  "lineY N h n index = jadd N (startY N h n) (fround N (of_nat index * 26))"

definition textSpan :: "node \<Rightarrow> prim \<Rightarrow> prim \<Rightarrow> nat \<Rightarrow> string \<times> nat \<Rightarrow> string" where
  \<open>textSpan N w h n = (\<lambda>(line, index).
     ''<text x="'' @ numStr N (half N (to_number N w)) @ ''" y="'' @ numStr N (lineY N h n index)
       @ ''" text-anchor="middle">'' @ line @ ''</text>'')\<close>

definition textSpans :: "node \<Rightarrow> prim \<Rightarrow> prim \<Rightarrow> string list \<Rightarrow> string" where
  "textSpans N w h lines =
     concat (map (textSpan N w h (length lines)) (zip lines [0 ..< length lines]))"

definition svgProlog :: "node \<Rightarrow> prim \<Rightarrow> prim \<Rightarrow> prim \<Rightarrow> prim \<Rightarrow> prim \<Rightarrow> string" where
  \<open>svgProlog N w h bg tc ac =
     ''<?xml version="1.0" encoding="UTF-8"?>\<newline>''
     @ ''<svg xmlns="http://www.w3.org/2000/svg" width="'' @ to_string N w
     @ ''" height="'' @ to_string N h @ ''">\<newline>''
     @ ''  <rect width="100%" height="100%" fill="'' @ to_string N bg @ ''" />\<newline>''
     @ ''  <rect x="20" y="20" width="'' @ numStr N (jsub N (to_number N w) (Num 40))
     @ ''" height="'' @ numStr N (jsub N (to_number N h) (Num 40))
     @ ''" rx="24" fill="#2a2a2a" stroke="'' @ to_string N ac @ ''" stroke-width="3" />\<newline>''
     @ ''  <text x="'' @ numStr N (half N (to_number N w))
     @ ''" y="'' @ numStr N (jsub N (half N (to_number N h)) (Num 60))
     @ ''" text-anchor="middle" fill="'' @ to_string N ac
     @ ''" font-family="Arial, sans-serif" font-size="26" font-weight="bold">FineImgur</text>\<newline>''
     @ ''  <g fill="'' @ to_string N tc @ ''" font-family="Arial, sans-serif" font-size="18">\<newline>''
     @ ''    ''\<close>

definition svgEpilog :: string where
  \<open>svgEpilog = ''\<newline>  </g>\<newline></svg>''\<close>

definition renderFailureSvg :: "node \<Rightarrow> json \<Rightarrow> string \<Rightarrow> error + string" where
  "renderFailureSvg N img reason =
     (if img = JNull then Inl TypeError
      else
        (case read_prop N img ''width'' of None \<Rightarrow> Inl TypeError | Some w \<Rightarrow>
        (case read_prop N img ''height'' of None \<Rightarrow> Inl TypeError | Some h \<Rightarrow>
        (case read_prop N img ''background'' of None \<Rightarrow> Inl TypeError | Some bg \<Rightarrow>
        (case read_prop N img ''textColor'' of None \<Rightarrow> Inl TypeError | Some tc \<Rightarrow>
        (case read_prop N img ''accentColor'' of None \<Rightarrow> Inl TypeError | Some ac \<Rightarrow>
           (let safeReason = escapeXml reason;
                lines = wrapText safeReason 42
            in Inr (svgProlog N w h bg tc ac @ textSpans N w h lines @ svgEpilog))))))))"

subsection \<open>The cache directory and the response\<close>

text \<open>
  The cache directory is a listing of named entries in \<open>readdir\<close> order; names are
  relative to it (\<open>path.join(cacheDir, name)\<close> of a single segment). An entry has its
  bytes, its modification time in milliseconds, and two facts about the environment:
  \<open>locked\<close> (\<open>unlink\<close> on it raises) and \<open>readable\<close> (it can be opened for reading).
  A file the relay creates or overwrites is its own: readable and not locked.
\<close>

record fnode =
  content :: string
  mtime :: int
  locked :: bool
  readable :: bool

definition fsize :: "fnode \<Rightarrow> nat" where
  "fsize f = length (content f)"

text \<open>
  What the process asked of the file system and the console, in order. \<open>Append\<close> is a
  chunk handed to the write stream, \<open>CloseFile\<close> the call of its \<open>end\<close>.
\<close>

datatype effect =
    Readdir | Create string | Append string string | CloseFile string
  | Rename string string | WriteFile string string | Unlink string | Utimes string int
  | Warn string

datatype body = Text string | FileStream string

datatype istream = Paused | Draining | Ingesting | Destroyed

datatype ostream = Opened | Ended | Torn

text \<open>
  The state of one request. The write stream of an ingestion is \<open>fileStream\<close>; \<open>pending\<close>
  holds the bytes it has accepted and not yet written to the disk, and \<open>wpath\<close> the name
  its file has in the directory.
\<close>

record state =
  files :: "(string \<times> fnode) list"
  effects :: "effect list"
  clock :: int
  resHead :: "(nat \<times> (string \<times> json) list) option"
  resBody :: "body option"
  downloaded :: nat
  aborted :: bool
  proxyRes :: istream
  fileStream :: "ostream option"
  pending :: string
  wpath :: string
  consumed :: nat

definition remove_entry :: "'k \<Rightarrow> ('k \<times> 'v) list \<Rightarrow> ('k \<times> 'v) list" where
  "remove_entry p d = filter (\<lambda>(n, f). n \<noteq> p) d"

definition put_entry :: "'k \<Rightarrow> 'v \<Rightarrow> ('k \<times> 'v) list \<Rightarrow> ('k \<times> 'v) list" where
  "put_entry p f d =
     (if map_of d p = None then d @ [(p, f)]
      else map (\<lambda>(n, g). if n = p then (n, f) else (n, g)) d)"

definition own_file :: "string \<Rightarrow> int \<Rightarrow> fnode" where
  "own_file bytes t = \<lparr> content = bytes, mtime = t, locked = False, readable = True \<rparr>"

definition existsSync :: "string \<Rightarrow> state \<Rightarrow> bool" where
  "existsSync p st = (map_of (files st) p \<noteq> None)"

definition statSync :: "string \<Rightarrow> state \<Rightarrow> error + fnode" where
  "statSync p st = (case map_of (files st) p of None \<Rightarrow> Inl ENOENT | Some f \<Rightarrow> Inr f)"

definition readFileSync :: "string \<Rightarrow> state \<Rightarrow> error + string" where
  "readFileSync p st =
     (case map_of (files st) p of
        None \<Rightarrow> Inl ENOENT
      | Some f \<Rightarrow> if readable f then Inr (content f) else Inl EACCES)"

definition unlinkSync :: "string \<Rightarrow> state \<Rightarrow> error + state" where
  "unlinkSync p st =
     (case map_of (files st) p of
        None \<Rightarrow> Inl ENOENT
      | Some f \<Rightarrow>
          if locked f then Inl EPERM
          else Inr (st\<lparr>files := remove_entry p (files st), effects := effects st @ [Unlink p]\<rparr>))"

definition renameSync :: "string \<Rightarrow> string \<Rightarrow> state \<Rightarrow> error + state" where
  "renameSync a b st =
     (case map_of (files st) a of
        None \<Rightarrow> Inl ENOENT
      | Some f \<Rightarrow>
          Inr (st\<lparr>files := put_entry b f (remove_entry a (files st)),
                  effects := effects st @ [Rename a b],
                  wpath := (if wpath st = a then b else wpath st)\<rparr>))"

definition writeFileSync :: "string \<Rightarrow> string \<Rightarrow> state \<Rightarrow> state" where
  "writeFileSync p text st =
     st\<lparr>files := put_entry p (own_file text (clock st)) (files st),
        effects := effects st @ [WriteFile p text]\<rparr>"

definition utimesSync :: "string \<Rightarrow> int \<Rightarrow> state \<Rightarrow> error + state" where
  "utimesSync p t st =
     (case map_of (files st) p of
        None \<Rightarrow> Inl ENOENT
      | Some f \<Rightarrow>
          Inr (st\<lparr>files := put_entry p (f\<lparr>mtime := t\<rparr>) (files st),
                  effects := effects st @ [Utimes p t]\<rparr>))"

text \<open>
  \<open>fs.createWriteStream(p)\<close> (flag \<open>w\<close>) creates or truncates the file.
  \<open>fileStream.write(chunk)\<close> only queues the chunk: the bytes reach the file later, when
  the runtime reports a completed write (\<open>written\<close>, some first bytes of the queue at a
  time). The descriptor stays on the file when the file is renamed; a stream that was
  destroyed writes nothing more.
\<close>

definition createWriteStream :: "string \<Rightarrow> state \<Rightarrow> state" where
  "createWriteStream p st =
     st\<lparr>files := put_entry p (own_file [] (clock st)) (files st),
        effects := effects st @ [Create p], fileStream := Some Opened,
        pending := [], wpath := p\<rparr>"

definition write_chunk :: "string \<Rightarrow> string \<Rightarrow> state \<Rightarrow> state" where
  "write_chunk p chunk st =
     st\<lparr>pending := pending st @ chunk, effects := effects st @ [Append p chunk]\<rparr>"

definition flush :: "int \<Rightarrow> nat \<Rightarrow> state \<Rightarrow> state" where
  "flush t n st =
     (if take n (pending st) = [] then st
      else
        st\<lparr>files := (case map_of (files st) (wpath st) of
                       None \<Rightarrow> files st
                     | Some f \<Rightarrow>
                         put_entry (wpath st)
                           (f\<lparr>content := content f @ take n (pending st), mtime := t\<rparr>)
                           (files st)),
           pending := drop n (pending st), clock := t\<rparr>)"

definition written :: "int \<Rightarrow> nat \<Rightarrow> state \<Rightarrow> state" where
  "written t n st =
     (case fileStream st of
        Some Opened \<Rightarrow> flush t n st
      | Some Ended \<Rightarrow> flush t n st
      | _ \<Rightarrow> st)"

text \<open>
  \<open>res.writeHead\<close> throws when the head is already written, when the status is outside
  100..999, and when a header value holds a character that is not allowed in a header.
\<close>

definition header_char_ok :: "char \<Rightarrow> bool" where
  "header_char_ok c = (let n = (of_char c :: nat) in n = 9 \<or> (32 \<le> n \<and> n \<noteq> 127))"

fun header_value_ok :: "json \<Rightarrow> bool" where
  "header_value_ok (JStr s) = list_all header_char_ok s"
| "header_value_ok (JArr vs) =
     list_all (\<lambda>v. case v of JStr s \<Rightarrow> list_all header_char_ok s | _ \<Rightarrow> True) vs"
| "header_value_ok v = True"

definition writeHead :: "nat \<Rightarrow> (string \<times> json) list \<Rightarrow> state \<Rightarrow> error + state" where
  "writeHead statusCode headers st =
     (if resHead st \<noteq> None then Inl ERR_HTTP_HEADERS_SENT
      else if statusCode < 100 \<or> statusCode > 999 then Inl ERR_HTTP_INVALID_STATUS_CODE
      else if \<not> list_all (\<lambda>(k, v). header_value_ok v) headers then Inl ERR_INVALID_CHAR
      else Inr (st\<lparr>resHead := Some (statusCode, headers)\<rparr>))"

text \<open>
  A response with status 204, 304 or 1xx has no body: \<open>writeHead\<close> marks it so, and what
  \<open>res.end\<close> or a piped stream then writes to it is dropped.
\<close>

definition has_body :: "nat \<Rightarrow> bool" where
  "has_body code \<longleftrightarrow> \<not> (code = 204 \<or> code = 304 \<or> (100 \<le> code \<and> code \<le> 199))"

definition body_allowed :: "state \<Rightarrow> bool" where
  "body_allowed st = (case resHead st of None \<Rightarrow> True | Some (code, headers) \<Rightarrow> has_body code)"

definition res_end :: "string \<Rightarrow> state \<Rightarrow> state" where
  "res_end text st = st\<lparr>resBody := Some (Text (if body_allowed st then text else []))\<rparr>"

text \<open>\<open>fs.createReadStream(p).pipe(res)\<close> returns at once; the file is opened later.\<close>

definition pipeFile :: "string \<Rightarrow> state \<Rightarrow> state" where
  "pipeFile p st = st\<lparr>resBody := Some (FileStream p)\<rparr>"

text \<open>
  What the caller receives once the event loop has run the piped stream: the bytes, or
  the stream's \<open>error\<close> event, which has no listener in the program and so ends the
  process as an uncaught exception.
\<close>

definition delivered :: "state \<Rightarrow> error + string" where
  "delivered st =
     (case resBody st of
        None \<Rightarrow> Inr []
      | Some (Text t) \<Rightarrow> Inr (if body_allowed st then t else [])
      | Some (FileStream p) \<Rightarrow>
          (case map_of (files st) p of
             None \<Rightarrow> Inl ENOENT
           | Some f \<Rightarrow>
               if readable f then Inr (if body_allowed st then content f else [])
               else Inl EACCES))"

definition sendFailure :: "node \<Rightarrow> config \<Rightarrow> string \<Rightarrow> nat option \<Rightarrow> state \<Rightarrow> error + state" where
  "sendFailure N cfg reason statusCode st =
     (case renderFailureSvg N (image_json (failureImage cfg)) reason of
        Inl e \<Rightarrow> Inl e
      | Inr svg \<Rightarrow>
          (case writeHead (case statusCode of None \<Rightarrow> 413 | Some c \<Rightarrow> c)
                  [(''Content-Type'', JStr ''image/svg+xml; charset=utf-8''),
                   (''Cache-Control'', JStr ''no-store''),
                   (''Content-Length'', JNum (of_nat (byteLength svg)))] st of
             Inl e \<Rightarrow> Inl e
           | Inr st1 \<Rightarrow> Inr (res_end svg st1)))"

subsection \<open>Key derivation\<close>

text \<open>
  \<open>path.extname\<close> of Node (POSIX), as its library writes it: one pass from the end of
  the string, skipping trailing slashes, stopping at the slash before the last segment.
\<close>

record ext_state =
  startDot :: int
  startPart :: nat
  endPos :: int
  matchedSlash :: bool
  preDotState :: int

fun extname_loop :: "string \<Rightarrow> nat \<Rightarrow> ext_state \<Rightarrow> ext_state" where
  "extname_loop path 0 s = s"
| "extname_loop path (Suc i) s =
     (if path ! i = CHR ''/'' then
        (if \<not> matchedSlash s then s\<lparr>startPart := i + 1\<rparr> else extname_loop path i s)
      else
        (let s1 = (if endPos s = - 1 then s\<lparr>matchedSlash := False, endPos := int i + 1\<rparr> else s);
             s2 = (if path ! i = CHR ''.'' then
                     (if startDot s1 = - 1 then s1\<lparr>startDot := int i\<rparr>
                      else if preDotState s1 \<noteq> 1 then s1\<lparr>preDotState := 1\<rparr> else s1)
                   else if startDot s1 \<noteq> - 1 then s1\<lparr>preDotState := - 1\<rparr> else s1)
         in extname_loop path i s2))"

definition extname :: "string \<Rightarrow> string" where
  "extname path =
     (let s = extname_loop path (length path)
                \<lparr> startDot = - 1, startPart = 0, endPos = - 1, matchedSlash = True,
                  preDotState = 0 \<rparr>
      in if startDot s = - 1 \<or> endPos s = - 1 \<or> preDotState s = 0
            \<or> (preDotState s = 1 \<and> startDot s = endPos s - 1
                \<and> startDot s = int (startPart s) + 1)
         then []
         else take (nat (endPos s) - nat (startDot s)) (drop (nat (startDot s)) path))"

text \<open>\<open>digest('hex')\<close>: the 64 lower-case hexadecimal digits of the 256 bits.\<close>

definition hex256 :: "256 word \<Rightarrow> string" where
  "hex256 w =
     map (\<lambda>i. ''0123456789abcdef'' ! unat (take_bit 4 (drop_bit (4 * (63 - i)) w))) [0 ..< 64]"

definition cacheKeyFromPath :: "node \<Rightarrow> string \<Rightarrow> string" where
  "cacheKeyFromPath N requestPath =
     (let hash = hex256 (sha256 N requestPath);
          extension = extname requestPath
      in hash @ extension)"

subsection \<open>Metadata store\<close>

definition metadataPathFor :: "string \<Rightarrow> string" where
  "metadataPathFor cacheFile = cacheFile @ ''.json''"

text \<open>\<open>readMetadata\<close> returns \<open>null\<close> from its \<open>catch\<close>.\<close>

definition readMetadata :: "node \<Rightarrow> string \<Rightarrow> state \<Rightarrow> json" where
  "readMetadata N cacheFile st =
     (case readFileSync (metadataPathFor cacheFile) st of
        Inl e \<Rightarrow> JNull
      | Inr raw \<Rightarrow> (case JSON_parse N raw of None \<Rightarrow> JNull | Some v \<Rightarrow> v))"

definition writeMetadata :: "node \<Rightarrow> string \<Rightarrow> json \<Rightarrow> state \<Rightarrow> state" where
  "writeMetadata N cacheFile metadata st =
     writeFileSync (metadataPathFor cacheFile) (JSON_stringify N metadata) st"

subsection \<open>Eviction\<close>

text \<open>
  The array \<open>files\<close> of \<open>enforceCacheLimit\<close>: one record per listed name that does not
  end in \<open>.json\<close>, with the size and time \<open>statSync\<close> reads (a listed name exists, so
  that call cannot fail here).
\<close>

record candidate =
  cname :: string
  csize :: nat
  cmtime :: int

definition candidates :: "state \<Rightarrow> candidate list" where
  "candidates st =
     map (\<lambda>(n, f). \<lparr> cname = n, csize = fsize f, cmtime = mtime f \<rparr>)
       (filter (\<lambda>(n, f). \<not> endsWith n ''.json'') (files st))"

definition totalSize :: "state \<Rightarrow> nat" where
  "totalSize st = sum_list (map csize (candidates st))"

text \<open>
  The \<open>for\<close> loop: \<open>currentSize\<close> is the second argument. A failed \<open>unlink\<close> of the
  payload or of its sidecar lands in the \<open>catch\<close>: a warning, and no decrement.
\<close>

fun evict_loop :: "nat \<Rightarrow> int \<Rightarrow> candidate list \<Rightarrow> state \<Rightarrow> state" where
  "evict_loop limit currentSize [] st = st"
| "evict_loop limit currentSize (e # es) st =
     (if currentSize \<le> int limit then st
      else
        (case unlinkSync (cname e) st of
           Inl err \<Rightarrow> evict_loop limit currentSize es (st\<lparr>effects := effects st @ [Warn (cname e)]\<rparr>)
         | Inr st1 \<Rightarrow>
             (if existsSync (metadataPathFor (cname e)) st1 then
                (case unlinkSync (metadataPathFor (cname e)) st1 of
                   Inl err \<Rightarrow>
                     evict_loop limit currentSize es
                       (st1\<lparr>effects := effects st1 @ [Warn (cname e)]\<rparr>)
                 | Inr st2 \<Rightarrow> evict_loop limit (currentSize - int (csize e)) es st2)
              else evict_loop limit (currentSize - int (csize e)) es st1)))"

definition enforceCacheLimit :: "config \<Rightarrow> state \<Rightarrow> state" where
  "enforceCacheLimit cfg st0 =
     (let st = st0\<lparr>effects := effects st0 @ [Readdir]\<rparr>;
          entries = candidates st;
          total = totalSize st
      in if total \<le> maxCacheBytes cfg then st
         else evict_loop (maxCacheBytes cfg) (int total) (sort_key cmtime entries) st)"

subsection \<open>Cache lookup\<close>

definition serveCached :: "node \<Rightarrow> string \<Rightarrow> state \<Rightarrow> bool \<times> state" where
  "serveCached N cacheFile st =
     (let metadata = readMetadata N cacheFile st
      in if \<not> truthy metadata then (False, st)
         else
           (case statSync cacheFile st of
              Inl e \<Rightarrow> (False, st)
            | Inr stats \<Rightarrow>
                (case writeHead 200
                        [(''Content-Type'',
                           (case get_prop metadata ''contentType'' of
                              None \<Rightarrow> JStr ''application/octet-stream''
                            | Some v \<Rightarrow> if truthy v then v else JStr ''application/octet-stream'')),
                         (''Content-Length'', JNum (of_nat (fsize stats))),
                         (''Cache-Control'', JStr ''public, max-age=86400'')] st of
                   Inl e \<Rightarrow> (False, st)
                 | Inr st1 \<Rightarrow>
                     (case utimesSync cacheFile (clock st1) st1 of
                        Inl e \<Rightarrow> (False, st1)
                      | Inr st2 \<Rightarrow> (True, pipeFile cacheFile st2)))))"

subsection \<open>The upstream response and streaming ingestion\<close>

record upstream =
  statusCode :: nat
  contentTypeHeader :: "string option"
  contentLengthHeader :: "string option"

text \<open>
  \<open>proxyRes.resume()\<close> with no \<open>data\<close> listener: the body is read and thrown away.
\<close>

definition resume :: "state \<Rightarrow> state" where
  "resume st = st\<lparr>proxyRes := Draining\<rparr>"

definition tempFileFor :: "string \<Rightarrow> string" where
  "tempFileFor cacheFile = cacheFile @ ''.tmp''"

definition oversize_text :: string where
  "oversize_text = ''Image exceeds maximum download size.''"

definition declared_oversize :: "node \<Rightarrow> config \<Rightarrow> upstream \<Rightarrow> bool" where
  "declared_oversize N cfg up =
     (case contentLengthHeader up of
        None \<Rightarrow> False
      | Some h \<Rightarrow>
          h \<noteq> [] \<and>
          (case Number_of N h of
             Num contentLength \<Rightarrow> contentLength > of_nat (maxDownloadBytes cfg)
           | _ \<Rightarrow> False))"

definition contentTypeOf :: "upstream \<Rightarrow> string" where
  "contentTypeOf up = (case contentTypeHeader up of None \<Rightarrow> [] | Some h \<Rightarrow> h)"

text \<open>The callback of \<open>client.request\<close>, up to the registration of the listeners.\<close>

definition on_response :: "node \<Rightarrow> config \<Rightarrow> string \<Rightarrow> upstream \<Rightarrow> state \<Rightarrow> error + state" where
  "on_response N cfg cacheFile up st =
     (if statusCode up \<noteq> 200 then
        (case sendFailure N cfg (''Imgur responded with status '' @ dec (statusCode up) @ ''.'')
                (Some (if statusCode up \<noteq> 0 then statusCode up else 502)) st of
           Inl e \<Rightarrow> Inl e
         | Inr st1 \<Rightarrow> Inr (resume st1))
      else if \<not> startsWith (contentTypeOf up) ''image/'' then
        (case sendFailure N cfg ''Imgur response was not an image.'' None st of
           Inl e \<Rightarrow> Inl e
         | Inr st1 \<Rightarrow> Inr (resume st1))
      else if declared_oversize N cfg up then
        (case sendFailure N cfg oversize_text None st of
           Inl e \<Rightarrow> Inl e
         | Inr st1 \<Rightarrow> Inr (resume st1))
      else
        Inr ((createWriteStream (tempFileFor cacheFile) st)
               \<lparr>downloaded := 0, aborted := False, proxyRes := Ingesting\<rparr>))"

definition on_data :: "node \<Rightarrow> config \<Rightarrow> string \<Rightarrow> string \<Rightarrow> state \<Rightarrow> error + state" where
  "on_data N cfg cacheFile chunk st0 =
     (let tempFile = tempFileFor cacheFile;
          st = st0\<lparr>downloaded := downloaded st0 + length chunk\<rparr>
      in if downloaded st > maxDownloadBytes cfg \<and> \<not> aborted st then
           (let st1 = st\<lparr>aborted := True, proxyRes := Destroyed, fileStream := Some Torn,
                          pending := []\<rparr>
            in case (if existsSync tempFile st1 then unlinkSync tempFile st1 else Inr st1) of
                 Inl e \<Rightarrow> Inl e
               | Inr st2 \<Rightarrow> sendFailure N cfg oversize_text None st2)
         else if \<not> aborted st then Inr (write_chunk tempFile chunk st)
         else Inr st)"

text \<open>
  The \<open>end\<close> listener in two halves: \<open>publish\<close> is everything up to and including the
  eviction pass, \<open>serveFresh\<close> the response that follows it. \<open>fileStream.end()\<close> returns
  at once; the file is renamed, measured and listed with the bytes written so far, and
  the queue goes on draining into the renamed file.
\<close>

definition metadataOf :: "node \<Rightarrow> string \<Rightarrow> state \<Rightarrow> json" where
  "metadataOf N contentType st =
     JObj [(''contentType'', JStr contentType), (''size'', JNum (of_nat (downloaded st))),
           (''cachedAt'', JStr (toISOString N (clock st)))]"

definition publish :: "node \<Rightarrow> config \<Rightarrow> string \<Rightarrow> string \<Rightarrow> state \<Rightarrow> error + state" where
  "publish N cfg cacheFile contentType st =
     (let tempFile = tempFileFor cacheFile;
          st1 = st\<lparr>fileStream := Some Ended, effects := effects st @ [CloseFile tempFile]\<rparr>
      in case renameSync tempFile cacheFile st1 of
           Inl e \<Rightarrow> Inl e
         | Inr st2 \<Rightarrow>
             Inr (enforceCacheLimit cfg
                    (writeMetadata N cacheFile (metadataOf N contentType st2) st2)))"

definition serveFresh :: "string \<Rightarrow> string \<Rightarrow> state \<Rightarrow> error + state" where
  "serveFresh cacheFile contentType st =
     (case statSync cacheFile st of
        Inl e \<Rightarrow> Inl e
      | Inr stats \<Rightarrow>
          (case writeHead 200
                  [(''Content-Type'', JStr contentType),
                   (''Content-Length'', JNum (of_nat (fsize stats))),
                   (''Cache-Control'', JStr ''public, max-age=86400'')] st of
             Inl e \<Rightarrow> Inl e
           | Inr st1 \<Rightarrow> Inr (pipeFile cacheFile st1)))"

definition on_end :: "node \<Rightarrow> config \<Rightarrow> string \<Rightarrow> string \<Rightarrow> state \<Rightarrow> error + state" where
  "on_end N cfg cacheFile contentType st =
     (if aborted st then Inr st
      else
        (case publish N cfg cacheFile contentType st of
           Inl e \<Rightarrow> Inl e
         | Inr st1 \<Rightarrow> serveFresh cacheFile contentType st1))"

definition on_error :: "node \<Rightarrow> config \<Rightarrow> string \<Rightarrow> string \<Rightarrow> state \<Rightarrow> error + state" where
  "on_error N cfg cacheFile message st =
     (if aborted st then Inr st
      else
        (let tempFile = tempFileFor cacheFile;
             st1 = st\<lparr>fileStream := Some Torn, pending := []\<rparr>
         in case (if existsSync tempFile st1 then unlinkSync tempFile st1 else Inr st1) of
              Inl e \<Rightarrow> Inl e
            | Inr st2 \<Rightarrow> sendFailure N cfg (''Proxy error: '' @ message) None st2))"

text \<open>The \<open>error\<close> listener of the request itself.\<close>

definition on_request_error :: "node \<Rightarrow> config \<Rightarrow> string \<Rightarrow> state \<Rightarrow> error + state" where
  "on_request_error N cfg message st = sendFailure N cfg (''Request failed: '' @ message) None st"

text \<open>
  The event loop of one ingestion: an event of the upstream body, or a completed write
  of the write stream, stamped with the time it arrives. A destroyed or paused body
  stream reads nothing; a draining one reads and drops the bytes, and an error of it is
  emitted to no listener; an ingesting one reads and calls the listeners.
\<close>

datatype event = Data string | End | Error string | Written nat

definition deliver ::
  "node \<Rightarrow> config \<Rightarrow> string \<Rightarrow> string \<Rightarrow> int \<times> event \<Rightarrow> state \<Rightarrow> error + state" where
  "deliver N cfg cacheFile contentType = (\<lambda>(t, ev) st0.
     (case ev of
        Written n \<Rightarrow> Inr (written t n st0)
      | Data chunk \<Rightarrow>
          (case proxyRes st0 of
             Paused \<Rightarrow> Inr st0
           | Destroyed \<Rightarrow> Inr st0
           | Draining \<Rightarrow> Inr (st0\<lparr>clock := t, consumed := consumed st0 + length chunk\<rparr>)
           | Ingesting \<Rightarrow>
               on_data N cfg cacheFile chunk
                 (st0\<lparr>clock := t, consumed := consumed st0 + length chunk\<rparr>))
      | End \<Rightarrow>
          (case proxyRes st0 of
             Paused \<Rightarrow> Inr st0
           | Destroyed \<Rightarrow> Inr st0
           | Draining \<Rightarrow> Inr (st0\<lparr>clock := t\<rparr>)
           | Ingesting \<Rightarrow> on_end N cfg cacheFile contentType (st0\<lparr>clock := t\<rparr>))
      | Error m \<Rightarrow>
          (case proxyRes st0 of
             Paused \<Rightarrow> Inr st0
           | Destroyed \<Rightarrow> Inr st0
           | Draining \<Rightarrow> Inr (st0\<lparr>clock := t\<rparr>)
           | Ingesting \<Rightarrow> on_error N cfg cacheFile m (st0\<lparr>clock := t\<rparr>))))"

fun run ::
  "node \<Rightarrow> config \<Rightarrow> string \<Rightarrow> string \<Rightarrow> (int \<times> event) list \<Rightarrow> state \<Rightarrow> error + state" where
  "run N cfg cacheFile contentType [] st = Inr st"
| "run N cfg cacheFile contentType (ev # evs) st =
     (case deliver N cfg cacheFile contentType ev st of
        Inl e \<Rightarrow> Inl e
      | Inr st1 \<Rightarrow> run N cfg cacheFile contentType evs st1)"

subsection \<open>The request handler, up to the upstream request\<close>

datatype routed = Replied state | Fetch string string state

definition plain :: "nat \<Rightarrow> string \<Rightarrow> state \<Rightarrow> error + routed" where
  "plain status text st =
     (case writeHead status [(''Content-Type'', JStr ''text/plain; charset=utf-8'')] st of
        Inl e \<Rightarrow> Inl e
      | Inr st1 \<Rightarrow> Inr (Replied (res_end text st1)))"

definition proxyRequest ::
  "node \<Rightarrow> config \<Rightarrow> string \<Rightarrow> string \<Rightarrow> state \<Rightarrow> error + routed" where
  "proxyRequest N cfg method url st =
     (if method \<noteq> ''GET'' then plain 405 ''Only GET supported'' st
      else if url = ''/'' \<or> url = [] then plain 200 ''FineImgur relay is running.'' st
      else
        (case URL_parse N url (imgurBaseUrl cfg) of
           None \<Rightarrow>
             (case sendFailure N cfg ''Invalid request URL.'' None st of
                Inl e \<Rightarrow> Inl e
              | Inr st1 \<Rightarrow> Inr (Replied st1))
         | Some (protocol, pathAndSearch) \<Rightarrow>
             (let cacheKey = cacheKeyFromPath N pathAndSearch;
                  cacheFile = cacheKey
              in if existsSync cacheFile st then
                   (case serveCached N cacheFile st of
                      (True, st1) \<Rightarrow> Inr (Replied st1)
                    | (False, st1) \<Rightarrow> Inr (Fetch protocol cacheFile st1))
                 else Inr (Fetch protocol cacheFile st))))"

subsection \<open>Configuration loading\<close>

definition DEFAULT_CONFIG :: "(string \<times> json) list" where
  "DEFAULT_CONFIG =
     [(''port'', JNum 3000),
      (''imgurBaseUrl'', JStr ''https://i.imgur.com''),
      (''cacheDir'', JStr ''./cache''),
      (''maxCacheBytes'', JNum (1024 * 1024 * 1024)),
      (''maxDownloadBytes'', JNum (10 * 1024 * 1024)),
      (''failureImage'',
         JObj [(''width'', JNum 640), (''height'', JNum 360),
               (''background'', JStr ''#1d1d1d''), (''textColor'', JStr ''#ffffff''),
               (''accentColor'', JStr ''#ff4d4d'')])]"

text \<open>
  Object spread \<open>{ ...a, ...v }\<close>: the own enumerable properties of \<open>v\<close> are assigned
  over a copy of \<open>a\<close>, key by key. An object spreads its keys, an array and a string
  their indices, every other value nothing.
\<close>

fun own_props :: "json \<Rightarrow> (string \<times> json) list" where
  "own_props (JObj kvs) = kvs"
| "own_props (JArr vs) = zip (map dec [0 ..< length vs]) vs"
| "own_props (JStr s) = zip (map dec [0 ..< length s]) (map (\<lambda>c. JStr [c]) s)"
| "own_props v = []"

definition spread :: "(string \<times> json) list \<Rightarrow> json \<Rightarrow> (string \<times> json) list" where
  "spread a v = fold (\<lambda>(k, x) acc. put_entry k x acc) (own_props v) a"

text \<open>\<open>loadConfig\<close>; the argument is the text of config.json, \<open>None\<close> when reading fails.\<close>

definition loadConfig :: "node \<Rightarrow> string option \<Rightarrow> (string \<times> json) list" where
  "loadConfig N file =
     (case file of
        None \<Rightarrow> DEFAULT_CONFIG
      | Some raw \<Rightarrow>
          (case JSON_parse N raw of
             None \<Rightarrow> DEFAULT_CONFIG
           | Some v \<Rightarrow> spread DEFAULT_CONFIG v))"

text \<open>A nested read \<open>config.a.b\<close> of the loaded configuration.\<close>

definition config_sub :: "(string \<times> json) list \<Rightarrow> string \<Rightarrow> string \<Rightarrow> json option" where
  "config_sub c a b = (case map_of c a of None \<Rightarrow> None | Some v \<Rightarrow> get_prop v b)"

subsection \<open>Concrete inputs for the examples\<close>

definition partial_config_text :: string where
  \<open>partial_config_text = ''{"failureImage":{"width":800}}''\<close>

definition png_metadata_text :: string where
  \<open>png_metadata_text = ''{"contentType":"image/png"}''\<close>

text \<open>
  A runtime for the examples: it parses the two texts above, stringifies to the second,
  digests a string to its length, reads the number of one header and refuses one URL.
  None of the examples leaves the range in which the arithmetic is exact.
\<close>

definition demo_node :: node where
  "demo_node =
     \<lparr> JSON_parse = (\<lambda>s. if s = partial_config_text
                          then Some (JObj [(''failureImage'', JObj [(''width'', JNum 800)])])
                          else if s = png_metadata_text
                          then Some (JObj [(''contentType'', JStr ''image/png'')])
                          else None),
       JSON_stringify = (\<lambda>v. png_metadata_text),
       sha256 = (\<lambda>s. of_nat (length s)),
       Number_of = (\<lambda>s. if s = ''50000000'' then Num 50000000 else NaN),
       to_double = Num,
       Number_toString = (\<lambda>q. []),
       URL_parse = (\<lambda>u b. if u = ''//['' then None else Some (''https:'', u)),
       toISOString = (\<lambda>t. ''1970-01-01T00:00:00.000Z'') \<rparr>"

text \<open>
  A configuration file that sets the placeholder to \<open>null\<close>, a runtime that parses it,
  and a reason of one word of 51 characters.
\<close>

definition null_config_text :: string where
  \<open>null_config_text = ''{"failureImage":null}''\<close>

definition null_node :: node where
  "null_node =
     demo_node\<lparr> JSON_parse := (\<lambda>s. if s = null_config_text
                                    then Some (JObj [(''failureImage'', JNull)]) else None) \<rparr>"

definition long_word :: string where
  "long_word = ''ECONNREFUSED-ECONNREFUSED-ECONNREFUSED-ECONNREFUSED''"

text \<open>The state at the start of a request: a directory, a time, nothing sent yet.\<close>

definition fresh :: "(string \<times> fnode) list \<Rightarrow> int \<Rightarrow> state" where
  "fresh d t =
     \<lparr> files = d, effects = [], clock = t, resHead = None, resBody = None, downloaded = 0,
       aborted = False, proxyRes = Paused, fileStream = None, pending = [], wpath = [],
       consumed = 0 \<rparr>"

subsection \<open>Invariants used in the proofs\<close>

text \<open>
  The loop of \<open>extname\<close>, before index \<open>n\<close> is read: \<open>endPos\<close> is set exactly when a
  character other than a slash was seen, no slash lies between \<open>n\<close> and \<open>endPos\<close>, and
  \<open>startDot\<close> is the last dot of that stretch.
\<close>

definition ext_inv :: "string \<Rightarrow> nat \<Rightarrow> ext_state \<Rightarrow> bool" where
  "ext_inv path n s =
     ((matchedSlash s = (endPos s = - 1)) \<and>
      (endPos s = - 1 \<longrightarrow> startDot s = - 1) \<and>
      (endPos s \<noteq> - 1 \<longrightarrow>
         int n < endPos s \<and> endPos s \<le> int (length path) \<and>
         (\<forall>j. n \<le> j \<and> int j < endPos s \<longrightarrow> path ! j \<noteq> CHR ''/'')) \<and>
      (startDot s \<noteq> - 1 \<longrightarrow>
         int n \<le> startDot s \<and> startDot s < endPos s \<and> path ! nat (startDot s) = CHR ''.'' \<and>
         (\<forall>j. startDot s < int j \<and> int j < endPos s \<longrightarrow> path ! j \<noteq> CHR ''.'')) \<and>
      (startDot s = - 1 \<longrightarrow> (\<forall>j. n \<le> j \<and> int j < endPos s \<longrightarrow> path ! j \<noteq> CHR ''.'')))"

subsection \<open>Views used in the statements\<close>

text \<open>
  \<open>esc\<close> is what the five replacements of \<open>escapeXml\<close> do to one character;
  \<open>svg_of\<close> is the document the renderer returns for a typed configuration;
  \<open>placeholder_reply\<close> describes the response \<open>sendFailure\<close> leaves; \<open>deletable\<close> says
  that \<open>unlink\<close> of a path would not raise. \<open>no_content\<close> is an upstream response
  with status 204.
\<close>

definition esc :: "char \<Rightarrow> string" where
  "esc c =
     (if c = CHR ''&'' then ''&amp;'' else if c = CHR ''<'' then ''&lt;''
      else if c = CHR ''>'' then ''&gt;'' else if c = CHR 0x22 then ''&quot;''
      else if c = CHR 0x27 then ''&#39;'' else [c])"

text \<open>
  Views of the placeholder document. \<open>digits_value\<close> reads a string of decimal digits;
  \<open>halves m\<close> is the decimal text of \<open>m / 2\<close>; \<open>convertible\<close> says that the conversion of
  a value to a primitive does not raise; \<open>image_keys\<close> are the properties the renderer
  reads; \<open>joined\<close> is the text of a group of words, each followed by a space; \<open>fits m p w\<close>
  says that the word \<open>w\<close> placed behind the words \<open>p\<close> stays within \<open>m\<close> columns, and
  \<open>packed m k g\<close> that every word of the group \<open>g\<close> from position \<open>k\<close> on fits behind the
  words before it.
\<close>

definition digits_value :: "string \<Rightarrow> nat" where
  "digits_value s = foldl (\<lambda>a c. 10 * a + (of_char c - 48)) 0 s"

definition halves :: "int \<Rightarrow> string" where
  "halves m = (if m < 0 then ''-'' else []) @ dec (nat \<bar>m\<bar> div 2) @ (if odd m then ''.5'' else [])"

fun convertible :: "json \<Rightarrow> bool" where
  "convertible (JObj kvs) = (''toString'' \<notin> fst ` set kvs)"
| "convertible (JArr vs) = list_all convertible vs"
| "convertible v = True"

definition image_keys :: "string list" where
  "image_keys = [''width'', ''height'', ''background'', ''textColor'', ''accentColor'']"

definition joined :: "string list \<Rightarrow> string" where
  "joined g = concat (map (\<lambda>w. w @ '' '') g)"

definition fits :: "nat \<Rightarrow> string list \<Rightarrow> string \<Rightarrow> bool" where
  "fits m p w \<longleftrightarrow> length (joined p) + length w \<le> m"

definition packed :: "nat \<Rightarrow> nat \<Rightarrow> string list \<Rightarrow> bool" where
  "packed m k g \<longleftrightarrow> (\<forall>j \<in> set [k ..< length g]. fits m (take j g) (g ! j))"

definition svg_of :: "node \<Rightarrow> config \<Rightarrow> string \<Rightarrow> string" where
  "svg_of N cfg reason =
     (case renderFailureSvg N (image_json (failureImage cfg)) reason of
        Inl e \<Rightarrow> [] | Inr svg \<Rightarrow> svg)"

definition placeholder_reply :: "node \<Rightarrow> config \<Rightarrow> string \<Rightarrow> nat \<Rightarrow> state \<Rightarrow> bool" where
  "placeholder_reply N cfg reason code st \<longleftrightarrow>
     resHead st =
       Some (code,
         [(''Content-Type'', JStr ''image/svg+xml; charset=utf-8''),
          (''Cache-Control'', JStr ''no-store''),
          (''Content-Length'', JNum (of_nat (byteLength (svg_of N cfg reason))))]) \<and>
     resBody st = Some (Text (svg_of N cfg reason))"

definition deletable :: "string \<Rightarrow> state \<Rightarrow> bool" where
  "deletable p st = (case map_of (files st) p of None \<Rightarrow> True | Some f \<Rightarrow> \<not> locked f)"

definition no_content :: upstream where
  "no_content = \<lparr> statusCode = 204, contentTypeHeader = None, contentLengthHeader = None \<rparr>"

definition demo_reason :: string where
  \<open>demo_reason = ''<a href="x">Tom & Jerry</a>''\<close>

definition not_found :: upstream where
  "not_found = \<lparr> statusCode = 404, contentTypeHeader = Some ''text/html'', contentLengthHeader = None \<rparr>"

subsection \<open>A whole upstream exchange\<close>

text \<open>
  \<open>ingest\<close> is the response callback followed by the events of the body;
  \<open>body_events\<close> stamps the chunks of a body, \<open>bytes_of\<close> counts them.
\<close>

definition ingest ::
  "node \<Rightarrow> config \<Rightarrow> string \<Rightarrow> upstream \<Rightarrow> (int \<times> event) list \<Rightarrow> state \<Rightarrow> error + state" where
  "ingest N cfg cacheFile up evs st =
     (case on_response N cfg cacheFile up st of
        Inl e \<Rightarrow> Inl e
      | Inr st1 \<Rightarrow> run N cfg cacheFile (contentTypeOf up) evs st1)"

definition body_events :: "(int \<times> string) list \<Rightarrow> (int \<times> event) list" where
  "body_events tcs = map (\<lambda>(t, chunk). (t, Data chunk)) tcs"

definition bytes_of :: "(int \<times> string) list \<Rightarrow> nat" where
  "bytes_of tcs = sum_list (map (\<lambda>(t, chunk). length chunk) tcs)"

definition declared_50MB :: upstream where
  "declared_50MB =
     \<lparr> statusCode = 200, contentTypeHeader = Some ''image/png'',
       contentLengthHeader = Some ''50000000'' \<rparr>"

subsection \<open>Views of an ingestion\<close>

text \<open>
  \<open>appends\<close> lists the writes of a run of chunks; \<open>flow\<close> says that a run of events
  holds chunks and completed writes only, and \<open>chunks_of\<close> lists its chunks;
  \<open>ingesting\<close> describes an ingestion in progress (listeners attached, nothing sent, the
  write stream open on the staging file, which is the relay's own);
  \<open>eviction_effect\<close> recognises what an eviction pass does after listing the directory;
  \<open>metadata_text\<close> is the text of a metadata record; \<open>trickle\<close> is a body of two chunks
  with one completed write of two bytes between them.
\<close>

definition appends :: "string \<Rightarrow> (int \<times> string) list \<Rightarrow> effect list" where
  "appends p tcs = map (\<lambda>(t, chunk). Append p chunk) tcs"

definition flow :: "(int \<times> event) list \<Rightarrow> bool" where
  "flow evs = list_all (\<lambda>(t, ev). case ev of Data c \<Rightarrow> True | Written n \<Rightarrow> True | _ \<Rightarrow> False) evs"

definition chunks_of :: "(int \<times> event) list \<Rightarrow> (int \<times> string) list" where
  "chunks_of evs = concat (map (\<lambda>(t, ev). case ev of Data c \<Rightarrow> [(t, c)] | _ \<Rightarrow> []) evs)"

definition ingesting :: "config \<Rightarrow> string \<Rightarrow> state \<Rightarrow> bool" where
  "ingesting cfg cf st \<longleftrightarrow>
     proxyRes st = Ingesting \<and> \<not> aborted st \<and> resHead st = None \<and>
     downloaded st \<le> maxDownloadBytes cfg \<and>
     fileStream st = Some Opened \<and> wpath st = tempFileFor cf \<and>
     (\<exists>f. map_of (files st) (tempFileFor cf) = Some f \<and> \<not> locked f \<and> readable f)"

fun eviction_effect :: "effect \<Rightarrow> bool" where
  "eviction_effect (Unlink p) = True"
| "eviction_effect (Warn p) = True"
| "eviction_effect e = False"

definition trickle :: "(int \<times> event) list" where
  "trickle = [(1, Data ''abc''), (2, Written 2), (3, Data ''de'')]"

definition small_config :: config where
  "small_config = default_config\<lparr>maxCacheBytes := 6, maxDownloadBytes := 5\<rparr>"

definition image_ok :: upstream where
  "image_ok = \<lparr> statusCode = 200, contentTypeHeader = Some ''image/png'', contentLengthHeader = None \<rparr>"

definition metadata_text :: "node \<Rightarrow> string \<Rightarrow> nat \<Rightarrow> int \<Rightarrow> string" where
  "metadata_text N contentType n t =
     JSON_stringify N
       (JObj [(''contentType'', JStr contentType), (''size'', JNum (of_nat n)),
              (''cachedAt'', JStr (toISOString N t))])"

definition race_dir :: "(string \<times> fnode) list" where
  "race_dir = [(''b'', own_file ''xyz'' 2), (''b.json'', own_file png_metadata_text 2)]"

definition in_flight :: state where
  "in_flight =
     (case ingest demo_node small_config ''a'' image_ok
             (body_events [(1, ''12345'')] @ [(1, Written 5)]) (fresh race_dir 0) of
        Inl e \<Rightarrow> fresh [] 0
      | Inr s \<Rightarrow> s)"

definition unreadable_state :: state where
  "unreadable_state =
     fresh [(''k'', \<lparr> content = ''data'', mtime = 0, locked = False, readable = False \<rparr>),
            (''k.json'', own_file png_metadata_text 0)] 5"

subsection \<open>Views of the key derivation\<close>

text \<open>
  \<open>ext_start\<close> is the state \<open>extname\<close> starts its loop in. \<open>json_key\<close> is the key of a
  request whose query ends in \<open>.json\<close>, and \<open>json_dir\<close> a directory that holds one payload
  under that key with its metadata record.
\<close>

definition ext_start :: ext_state where
  "ext_start = \<lparr> startDot = - 1, startPart = 0, endPos = - 1, matchedSlash = True, preDotState = 0 \<rparr>"



subsection \<open>Views of an eviction pass\<close>







definition stuck_dir :: "(string \<times> fnode) list" where
  "stuck_dir = [(''d'', \<lparr> content = ''12345678'', mtime = 0, locked = True, readable = True \<rparr>)]"

section \<open>Properties\<close>

subsection \<open>Association lists\<close>

lemma map_of_map_replace:
  "map_of (map (\<lambda>(n, g). if n = k then (n, v) else (n, g)) d) x =
     (if x = k then map_option (\<lambda>_. v) (map_of d k) else map_of d x)"
  by (induction d) auto

lemma map_of_put_entry: "map_of (put_entry k v d) = (map_of d)(k \<mapsto> v)"
  by (auto simp: put_entry_def fun_eq_iff map_of_map_replace map_add_def split: option.splits)

lemma map_of_fold_put:
  "map_of (fold (\<lambda>(k, x) acc. put_entry k x acc) kvs a) = map_of a ++ map_of (rev kvs)"
proof (induction kvs arbitrary: a)
  case Nil
  then show ?case by simp
next
  case (Cons kv kvs)
  obtain k x where kv: "kv = (k, x)" by (cases kv)
  show ?case by (simp add: kv Cons map_of_put_entry fun_eq_iff map_add_def split: option.splits)
qed

lemma map_of_rev_distinct: "distinct (map fst kvs) \<Longrightarrow> map_of (rev kvs) = map_of kvs"
proof (induction kvs)
  case Nil
  then show ?case by simp
next
  case (Cons kv kvs)
  then have "fst kv \<notin> fst ` set kvs" by simp
  then have "map_of kvs (fst kv) = None" by (simp add: map_of_eq_None_iff)
  with Cons show ?case
    by (cases kv) (auto simp: fun_eq_iff map_add_def split: option.splits)
qed

subsection \<open>Configuration loading\<close>

lemma map_of_spread_object:
  "distinct (map fst kvs) \<Longrightarrow> map_of (spread a (JObj kvs)) = map_of a ++ map_of kvs"
  by (simp add: spread_def map_of_fold_put map_of_rev_distinct)

text \<open>
  Claim C10. \<open>loadConfig\<close> returns exactly the defaults when config.json cannot be read or
  parsed. When it parses to an object (each key once), the result is the defaults
  overridden key by key at the top level only: a \<open>failureImage\<close> value in the file
  replaces the default one whole, so a sub-key the file leaves out reads as whatever the
  file's value gives for it (\<open>undefined\<close> when it is an object without that key), never
  as the default.
\<close>

theorem loadConfig_shallow_merge:
  "loadConfig N None = DEFAULT_CONFIG \<and>
   (JSON_parse N raw = None \<longrightarrow> loadConfig N (Some raw) = DEFAULT_CONFIG) \<and>
   (JSON_parse N raw = Some (JObj kvs) \<and> distinct (map fst kvs) \<longrightarrow>
      map_of (loadConfig N (Some raw)) = map_of DEFAULT_CONFIG ++ map_of kvs \<and>
      (\<forall>fi. map_of kvs ''failureImage'' = Some fi \<longrightarrow>
         map_of (loadConfig N (Some raw)) ''failureImage'' = Some fi \<and>
         (\<forall>k. config_sub (loadConfig N (Some raw)) ''failureImage'' k = get_prop fi k)))"
  by (auto simp: loadConfig_def map_of_spread_object config_sub_def map_add_def)

theorem loadConfig_shallow_merge_witness:
  "JSON_parse demo_node partial_config_text
     = Some (JObj [(''failureImage'', JObj [(''width'', JNum 800)])]) \<and>
   config_sub (loadConfig demo_node (Some partial_config_text)) ''failureImage'' ''width''
     = Some (JNum 800) \<and>
   config_sub (loadConfig demo_node (Some partial_config_text)) ''failureImage'' ''height''
     = None \<and>
   config_sub DEFAULT_CONFIG ''failureImage'' ''height'' = Some (JNum 360) \<and>
   map_of (loadConfig demo_node (Some partial_config_text)) ''port'' = Some (JNum 3000) \<and>
   JSON_parse demo_node ''not json'' = None \<and>
   loadConfig demo_node (Some ''not json'') = DEFAULT_CONFIG"
proof -
  have p: "JSON_parse demo_node partial_config_text
     = Some (JObj [(''failureImage'', JObj [(''width'', JNum 800)])])"
    by (simp add: demo_node_def)
  have q: "JSON_parse demo_node ''not json'' = None"
    by (simp add: demo_node_def partial_config_text_def png_metadata_text_def)
  show ?thesis
    using p q
      loadConfig_shallow_merge [of demo_node partial_config_text
        "[(''failureImage'', JObj [(''width'', JNum 800)])]"]
      loadConfig_shallow_merge [of demo_node "''not json''" "[]"]
    by (simp add: config_sub_def DEFAULT_CONFIG_def map_add_def)
qed

subsection \<open>Key derivation\<close>

lemma from_here: "i \<le> j \<Longrightarrow> j = i \<or> Suc i \<le> (j::nat)"
  by arith

lemma ext_invI:
  assumes "matchedSlash s = (endPos s = - 1)"
    and "endPos s = - 1 \<Longrightarrow> startDot s = - 1"
    and "endPos s \<noteq> - 1 \<Longrightarrow> int n < endPos s \<and> endPos s \<le> int (length path)"
    and "\<And>j. endPos s \<noteq> - 1 \<Longrightarrow> n \<le> j \<Longrightarrow> int j < endPos s \<Longrightarrow> path ! j \<noteq> CHR ''/''"
    and "startDot s \<noteq> - 1 \<Longrightarrow>
           int n \<le> startDot s \<and> startDot s < endPos s \<and> path ! nat (startDot s) = CHR ''.''"
    and "\<And>j. startDot s \<noteq> - 1 \<Longrightarrow> startDot s < int j \<Longrightarrow> int j < endPos s \<Longrightarrow> path ! j \<noteq> CHR ''.''"
    and "\<And>j. startDot s = - 1 \<Longrightarrow> n \<le> j \<Longrightarrow> int j < endPos s \<Longrightarrow> path ! j \<noteq> CHR ''.''"
  shows "ext_inv path n s"
  unfolding ext_inv_def using assms by blast

lemma ext_inv_preDot: "ext_inv path n (s\<lparr>preDotState := x\<rparr>) = ext_inv path n s"
  by (simp add: ext_inv_def)

lemma ext_inv_step:
  assumes inv: "ext_inv path (Suc i) s" and ns: "path ! i \<noteq> CHR ''/''" and i: "i < length path"
  defines "s1 \<equiv> (if endPos s = - 1 then s\<lparr>matchedSlash := False, endPos := int i + 1\<rparr> else s)"
  defines "s2 \<equiv> (if path ! i = CHR ''.'' then
                     (if startDot s1 = - 1 then s1\<lparr>startDot := int i\<rparr>
                      else if preDotState s1 \<noteq> 1 then s1\<lparr>preDotState := 1\<rparr> else s1)
                   else if startDot s1 \<noteq> - 1 then s1\<lparr>preDotState := - 1\<rparr> else s1)"
  shows "ext_inv path i s2"
proof -
  have A: "matchedSlash s = (endPos s = - 1)"
    and B: "endPos s = - 1 \<longrightarrow> startDot s = - 1"
    and C: "endPos s \<noteq> - 1 \<longrightarrow> int (Suc i) < endPos s \<and> endPos s \<le> int (length path)"
    and C': "\<And>j. endPos s \<noteq> - 1 \<Longrightarrow> Suc i \<le> j \<Longrightarrow> int j < endPos s \<Longrightarrow> path ! j \<noteq> CHR ''/''"
    and D: "startDot s \<noteq> - 1 \<longrightarrow>
         int (Suc i) \<le> startDot s \<and> startDot s < endPos s \<and> path ! nat (startDot s) = CHR ''.''"
    and D': "\<And>j. startDot s \<noteq> - 1 \<Longrightarrow> startDot s < int j \<Longrightarrow> int j < endPos s \<Longrightarrow> path ! j \<noteq> CHR ''.''"
    and E: "\<And>j. startDot s = - 1 \<Longrightarrow> Suc i \<le> j \<Longrightarrow> int j < endPos s \<Longrightarrow> path ! j \<noteq> CHR ''.''"
    using inv unfolding ext_inv_def by blast+
  have e1: "endPos s1 = (if endPos s = - 1 then int i + 1 else endPos s)"
    and m1: "matchedSlash s1 = False" and d1: "startDot s1 = startDot s"
    using A by (simp_all add: s1_def)
  have e2: "endPos s2 = endPos s1" and m2: "matchedSlash s2 = matchedSlash s1"
    by (simp_all add: s2_def)
  have d2: "startDot s2 = (if path ! i = CHR ''.'' \<and> startDot s = - 1 then int i else startDot s)"
    by (simp add: s2_def d1)
  have ne: "endPos s1 \<noteq> - 1" by (simp add: e1)
  have bound: "int i < endPos s1" "endPos s1 \<le> int (length path)"
    using C i by (auto simp: e1)
  have old: "endPos s \<noteq> - 1 \<and> endPos s1 = endPos s" if "Suc i \<le> j" "int j < endPos s1" for j
    using that by (cases "endPos s = - 1") (simp_all add: e1)
  have noslash: "path ! j \<noteq> CHR ''/''" if "i \<le> j" "int j < endPos s1" for j
  proof (cases "j = i")
    case True
    then show ?thesis using ns by simp
  next
    case False
    then have j: "Suc i \<le> j" using that by simp
    show ?thesis using C'[of j] old[OF j that(2)] j that(2) by simp
  qed
  have nodot_above: "path ! j \<noteq> CHR ''.''" if "startDot s = - 1" "Suc i \<le> j" "int j < endPos s1" for j
    using E[of j] old[OF that(2,3)] that by simp
  show ?thesis
  proof (rule ext_invI)
    show "matchedSlash s2 = (endPos s2 = - 1)" by (simp add: e2 m2 m1 ne)
    show "endPos s2 = - 1 \<Longrightarrow> startDot s2 = - 1" by (simp add: e2 ne)
    show "endPos s2 \<noteq> - 1 \<Longrightarrow> int i < endPos s2 \<and> endPos s2 \<le> int (length path)"
      using bound by (simp add: e2)
    show "\<And>j. endPos s2 \<noteq> - 1 \<Longrightarrow> i \<le> j \<Longrightarrow> int j < endPos s2 \<Longrightarrow> path ! j \<noteq> CHR ''/''"
      using noslash by (simp add: e2)
    show "startDot s2 \<noteq> - 1 \<Longrightarrow>
           int i \<le> startDot s2 \<and> startDot s2 < endPos s2 \<and> path ! nat (startDot s2) = CHR ''.''"
    proof (cases "startDot s = - 1")
      case True
      assume "startDot s2 \<noteq> - 1"
      then have "path ! i = CHR ''.''" "startDot s2 = int i" using True by (auto simp: d2 split: if_splits)
      then show ?thesis using bound by (simp add: e2)
    next
      case False
      then have "endPos s \<noteq> - 1" using B by blast
      then have "endPos s1 = endPos s" by (simp add: e1)
      then show ?thesis using False D by (simp add: d2 e2)
    qed
    show "path ! j \<noteq> CHR ''.''" if "startDot s2 \<noteq> - 1" "startDot s2 < int j" "int j < endPos s2" for j
    proof (cases "startDot s = - 1")
      case True
      then have "startDot s2 = int i" using that(1) by (auto simp: d2 split: if_splits)
      then have "Suc i \<le> j" using that(2) by simp
      then show ?thesis using nodot_above[OF True, of j] that(3) by (simp add: e2)
    next
      case False
      then have "endPos s \<noteq> - 1" using B by blast
      then have "endPos s1 = endPos s" by (simp add: e1)
      then show ?thesis using D'[of j] False that by (simp add: d2 e2)
    qed
    show "path ! j \<noteq> CHR ''.''" if "startDot s2 = - 1" "i \<le> j" "int j < endPos s2" for j
    proof -
      have sd: "startDot s = - 1" and nd: "path ! i \<noteq> CHR ''.''"
        using that(1) by (auto simp: d2 split: if_splits)
      show ?thesis
      proof (cases "j = i")
        case True
        then show ?thesis using nd by simp
      next
        case False
        then have "Suc i \<le> j" using that(2) by simp
        then show ?thesis using nodot_above[OF sd, of j] that(3) by (simp add: e2)
      qed
    qed
  qed
qed

lemma ext_inv_weaken:
  assumes "path ! i = CHR ''/''" "matchedSlash s" "ext_inv path (Suc i) s"
  shows "ext_inv path i s"
proof -
  have "endPos s = - 1" "startDot s = - 1" using assms unfolding ext_inv_def by blast+
  moreover have "matchedSlash s = (endPos s = - 1)" using assms unfolding ext_inv_def by blast
  ultimately show ?thesis by (intro ext_invI) simp_all
qed

lemma extname_loop_inv:
  "ext_inv path n s \<Longrightarrow> n \<le> length path \<Longrightarrow> \<exists>m. ext_inv path m (extname_loop path n s)"
proof (induction path n s rule: extname_loop.induct)
  case (1 path s)
  then show ?case by auto
next
  case (2 path i s)
  have i: "i < length path" using "2.prems" by simp
  show ?case
  proof (cases "path ! i = CHR ''/''")
    case True
    show ?thesis
    proof (cases "matchedSlash s")
      case ms: True
      have "ext_inv path i s" using ext_inv_weaken[OF True ms] "2.prems" by blast
      then have "\<exists>m. ext_inv path m (extname_loop path i s)"
        using "2.IH"(1) True ms i by simp
      then show ?thesis using True ms by simp
    next
      case False
      have "ext_inv path (Suc i) (s\<lparr>startPart := i + 1\<rparr>)"
        using "2.prems"(1) by (simp add: ext_inv_def)
      with False True show ?thesis by auto
    qed
  next
    case False
    define s1 where "s1 = (if endPos s = - 1 then s\<lparr>matchedSlash := False, endPos := int i + 1\<rparr> else s)"
    define s2 where "s2 = (if path ! i = CHR ''.'' then
                     (if startDot s1 = - 1 then s1\<lparr>startDot := int i\<rparr>
                      else if preDotState s1 \<noteq> 1 then s1\<lparr>preDotState := 1\<rparr> else s1)
                   else if startDot s1 \<noteq> - 1 then s1\<lparr>preDotState := - 1\<rparr> else s1)"
    have inv2: "ext_inv path i s2"
      unfolding s2_def s1_def by (rule ext_inv_step[OF "2.prems"(1) False i])
    have "\<exists>m. ext_inv path m (extname_loop path i s2)"
      using "2.IH"(2)[OF False s1_def s2_def inv2] i by simp
    moreover have "extname_loop path (Suc i) s = extname_loop path i s2"
      using False by (simp add: s1_def s2_def Let_def)
    ultimately show ?thesis by simp
  qed
qed

lemma extname_shape:
  "extname p = [] \<or>
   (\<exists>rest. extname p = CHR ''.'' # rest \<and> CHR ''/'' \<notin> set rest \<and> CHR ''.'' \<notin> set rest)"
proof -
  define s0 where "s0 = \<lparr> startDot = - 1, startPart = 0, endPos = - 1, matchedSlash = True,
                  preDotState = 0 \<rparr>"
  define s where "s = extname_loop p (length p) s0"
  have "ext_inv p (length p) s0" by (simp add: ext_inv_def s0_def)
  then obtain m where inv: "ext_inv p m s"
    using extname_loop_inv[of p "length p" s0] unfolding s_def by auto
  show ?thesis
  proof (cases "extname p = []")
    case True
    then show ?thesis by simp
  next
    case False
    define c where "c \<longleftrightarrow> startDot s = - 1 \<or> endPos s = - 1 \<or> preDotState s = 0
            \<or> (preDotState s = 1 \<and> startDot s = endPos s - 1
                \<and> startDot s = int (startPart s) + 1)"
    have ex0: "extname p =
        (if c then [] else take (nat (endPos s) - nat (startDot s)) (drop (nat (startDot s)) p))"
      unfolding extname_def c_def s_def s0_def Let_def by (rule refl)
    have nc: "\<not> c" using False ex0 by (cases c) simp_all
    have sd: "startDot s \<noteq> - 1" and e: "endPos s \<noteq> - 1"
      using nc unfolding c_def by blast+
    have ex: "extname p = take (nat (endPos s) - nat (startDot s)) (drop (nat (startDot s)) p)"
      using nc ex0 by simp
    define a where "a = nat (startDot s)"
    define b where "b = nat (endPos s)"
    have ab: "a < b" "b \<le> length p" "p ! a = CHR ''.''"
      and sl: "\<forall>j. a \<le> j \<and> j < b \<longrightarrow> p ! j \<noteq> CHR ''/''"
      and dt: "\<forall>j. a < j \<and> j < b \<longrightarrow> p ! j \<noteq> CHR ''.''"
    proof -
      have 1: "startDot s < endPos s" "endPos s \<le> int (length p)" "p ! nat (startDot s) = CHR ''.''"
        and 2: "int m \<le> startDot s"
        and 3: "\<And>j. m \<le> j \<Longrightarrow> int j < endPos s \<Longrightarrow> p ! j \<noteq> CHR ''/''"
        and 4: "\<And>j. startDot s < int j \<Longrightarrow> int j < endPos s \<Longrightarrow> p ! j \<noteq> CHR ''.''"
        using inv sd e unfolding ext_inv_def by blast+
      have 0: "0 \<le> startDot s" using 2 by simp
      show "a < b" "b \<le> length p" "p ! a = CHR ''.''"
        using 0 1 by (simp_all add: a_def b_def)
      show "\<forall>j. a \<le> j \<and> j < b \<longrightarrow> p ! j \<noteq> CHR ''/''"
      proof (intro allI impI)
        fix j assume j: "a \<le> j \<and> j < b"
        then have "m \<le> j" "int j < endPos s" using 0 2 unfolding a_def b_def by linarith+
        then show "p ! j \<noteq> CHR ''/''" by (rule 3)
      qed
      show "\<forall>j. a < j \<and> j < b \<longrightarrow> p ! j \<noteq> CHR ''.''"
      proof (intro allI impI)
        fix j assume j: "a < j \<and> j < b"
        then have "startDot s < int j" "int j < endPos s" using 0 unfolding a_def b_def by linarith+
        then show "p ! j \<noteq> CHR ''.''" by (rule 4)
      qed
    qed
    have len: "length (extname p) = b - a" using ab by (simp add: ex a_def b_def)
    have nth: "extname p ! k = p ! (a + k)" if "k < b - a" for k
      using that ab by (simp add: ex a_def[symmetric] b_def[symmetric])
    obtain c rest where cr: "extname p = c # rest"
      using len ab by (cases "extname p") auto
    have "c = CHR ''.''" using nth[of 0] ab cr by simp
    moreover have "x \<noteq> CHR ''/'' \<and> x \<noteq> CHR ''.''" if "x \<in> set rest" for x
    proof -
      from that obtain k where k: "k < length rest" "rest ! k = x"
        unfolding in_set_conv_nth by blast
      have "length (c # rest) = b - a" using len by (simp only: cr)
      then have "Suc (length rest) = b - a" by simp
      then have "Suc k < b - a" using k(1) by linarith
      then have "extname p ! Suc k = p ! (a + Suc k)" by (rule nth)
      moreover have "extname p ! Suc k = rest ! k" by (simp add: cr)
      ultimately have x: "p ! (a + Suc k) = x" using k(2) by (simp only:)
      have "a + Suc k < b" "a < a + Suc k" "a \<le> a + Suc k"
        using \<open>Suc k < b - a\<close> by simp_all
      then have "p ! (a + Suc k) \<noteq> CHR ''/''" "p ! (a + Suc k) \<noteq> CHR ''.''"
        using sl dt by blast+
      then show ?thesis by (simp only: x) simp
    qed
    ultimately show ?thesis using cr by auto
  qed
qed

lemma hex_digit: "unat (take_bit 4 (w :: 256 word)) < 16"
proof -
  have "unat (take_bit 4 w) = take_bit 4 (unat w)" by (rule unsigned_take_bit_eq)
  also have "\<dots> = unat w mod 2 ^ 4" by (rule take_bit_eq_mod)
  also have "\<dots> < 16" by simp
  finally show ?thesis .
qed

lemma length_hex256: "length (hex256 w) = 64"
  by (simp add: hex256_def)

lemma set_hex256: "set (hex256 w) \<subseteq> set ''0123456789abcdef''"
proof -
  have "''0123456789abcdef'' ! k \<in> set ''0123456789abcdef''" if "k < 16" for k
    using that nth_mem[of k "''0123456789abcdef''"] by simp
  then show ?thesis
    unfolding hex256_def using hex_digit by auto
qed

lemma proxyRequest_Fetch:
  assumes "proxyRequest N cfg m u st = Inr (Fetch pr cf st')"
  shows "\<exists>pq. URL_parse N u (imgurBaseUrl cfg) = Some (pr, pq) \<and> cf = cacheKeyFromPath N pq"
  using assms
  by (auto simp: proxyRequest_def plain_def Let_def
      split: if_splits option.splits sum.splits prod.splits bool.splits)

lemma demo_key:
  "cacheKeyFromPath demo_node ''/abc123.png''
     = ''000000000000000000000000000000000000000000000000000000000000000b.png''"
  by code_simp

lemma demo_url: "URL_parse demo_node ''/abc123.png'' b = Some (''https:'', ''/abc123.png'')"
  by (simp add: demo_node_def)

lemma extname_loop_append:
  "n \<le> length xs \<Longrightarrow> extname_loop (xs @ ys) n s = extname_loop xs n s"
proof (induction n arbitrary: s)
  case 0
  then show ?case by simp
next
  case (Suc i)
  then have i: "i < length xs" "i \<le> length xs" by simp_all
  have c: "(xs @ ys) ! i = xs ! i" using i(1) by (simp add: nth_append)
  show ?case
    unfolding extname_loop.simps c Let_def using Suc.IH[OF i(2)] by simp
qed

lemma extname_loop_last:
  "extname_loop (xs @ [c]) (Suc (length xs)) s =
     (if c = CHR ''/'' then
        (if \<not> matchedSlash s then s\<lparr>startPart := length xs + 1\<rparr>
         else extname_loop xs (length xs) s)
      else
        (let s1 = (if endPos s = - 1 then s\<lparr>matchedSlash := False, endPos := int (length xs) + 1\<rparr> else s);
             s2 = (if c = CHR ''.'' then
                     (if startDot s1 = - 1 then s1\<lparr>startDot := int (length xs)\<rparr>
                      else if preDotState s1 \<noteq> 1 then s1\<lparr>preDotState := 1\<rparr> else s1)
                   else if startDot s1 \<noteq> - 1 then s1\<lparr>preDotState := - 1\<rparr> else s1)
         in extname_loop xs (length xs) s2))"
  by (simp add: Let_def extname_loop_append)

text \<open>A run of characters that are neither a dot nor a slash, read after the end was found
  and before any dot: nothing changes.\<close>

lemma loop_plain_after:
  assumes "\<forall>c\<in>set e. c \<noteq> CHR ''/'' \<and> c \<noteq> CHR ''.''" "endPos s \<noteq> - 1" "startDot s = - 1"
  shows "extname_loop (xs @ e) (length xs + length e) s = extname_loop xs (length xs) s"
  using assms(1)
proof (induction e rule: rev_induct)
  case Nil
  then show ?case by simp
next
  case (snoc c e)
  have c: "c \<noteq> CHR ''/''" "c \<noteq> CHR ''.''" using snoc.prems by simp_all
  have "extname_loop ((xs @ e) @ [c]) (Suc (length (xs @ e))) s
          = extname_loop (xs @ e) (length (xs @ e)) s"
    unfolding extname_loop_last using c assms(2,3) by (simp add: Let_def)
  then show ?case using snoc by simp
qed

lemma loop_plain_first:
  assumes "\<forall>c\<in>set e. c \<noteq> CHR ''/'' \<and> c \<noteq> CHR ''.''" "e \<noteq> []"
  shows "extname_loop (xs @ e) (length xs + length e) ext_start
           = extname_loop xs (length xs)
               (ext_start\<lparr>matchedSlash := False, endPos := int (length xs + length e)\<rparr>)"
proof -
  obtain e' c where e: "e = e' @ [c]" using assms(2) by (cases e rule: rev_cases) auto
  have c: "c \<noteq> CHR ''/''" "c \<noteq> CHR ''.''" and e': "\<forall>c\<in>set e'. c \<noteq> CHR ''/'' \<and> c \<noteq> CHR ''.''"
    using assms(1) by (simp_all add: e)
  define s1 where "s1 = ext_start\<lparr>matchedSlash := False, endPos := int (length xs + length e)\<rparr>"
  have "extname_loop ((xs @ e') @ [c]) (Suc (length (xs @ e'))) ext_start
          = extname_loop (xs @ e') (length (xs @ e')) s1"
    unfolding extname_loop_last using c by (simp add: Let_def ext_start_def s1_def e algebra_simps)
  also have "\<dots> = extname_loop xs (length xs) s1"
    using loop_plain_after[OF e', of s1 xs] by (simp add: s1_def ext_start_def)
  finally show ?thesis by (simp add: e s1_def)
qed

text \<open>A run of characters other than a slash, read after the dot: only \<open>preDotState\<close> moves,
  and it leaves 0.\<close>

lemma loop_before_dot:
  assumes "\<forall>c\<in>set b. c \<noteq> CHR ''/''" "endPos s \<noteq> - 1" "startDot s \<noteq> - 1"
  shows "\<exists>v. (b \<noteq> [] \<longrightarrow> v \<noteq> 0) \<and>
             extname_loop (xs @ b) (length xs + length b) s
               = extname_loop xs (length xs) (s\<lparr>preDotState := v\<rparr>)"
  using assms
proof (induction b arbitrary: s rule: rev_induct)
  case Nil
  have "s\<lparr>preDotState := preDotState s\<rparr> = s" by simp
  then show ?case by (metis append_Nil2 list.size(3) add_0_right)
next
  case (snoc c b)
  have c: "c \<noteq> CHR ''/''" and b: "\<forall>c\<in>set b. c \<noteq> CHR ''/''" using snoc.prems(1) by simp_all
  define v1 :: int where "v1 = (if c = CHR ''.'' then 1 else - 1)"
  define s2 where "s2 = s\<lparr>preDotState := v1\<rparr>"
  have same: "s\<lparr>preDotState := 1\<rparr> = s" if "preDotState s = 1"
  proof -
    have "s\<lparr>preDotState := preDotState s\<rparr> = s" by simp
    then show ?thesis unfolding that .
  qed
  have step: "extname_loop ((xs @ b) @ [c]) (Suc (length (xs @ b))) s
          = extname_loop (xs @ b) (length (xs @ b)) s2"
    unfolding extname_loop_last using c snoc.prems(2,3)
    by (auto simp: Let_def s2_def v1_def same)
  have p: "endPos s2 \<noteq> - 1" "startDot s2 \<noteq> - 1" using snoc.prems(2,3) by (simp_all add: s2_def)
  from snoc.IH[OF b p] obtain v where v: "b \<noteq> [] \<longrightarrow> v \<noteq> 0"
    "extname_loop (xs @ b) (length xs + length b) s2
       = extname_loop xs (length xs) (s2\<lparr>preDotState := v\<rparr>)" by blast
  show ?case
  proof (cases "b = []")
    case True
    have "v1 \<noteq> 0" by (simp add: v1_def)
    moreover have "extname_loop (xs @ b @ [c]) (length xs + length (b @ [c])) s
                     = extname_loop xs (length xs) (s\<lparr>preDotState := v1\<rparr>)"
      using step True by (simp add: s2_def)
    ultimately show ?thesis by blast
  next
    case False
    have "extname_loop (xs @ b @ [c]) (length xs + length (b @ [c])) s
            = extname_loop xs (length xs) (s\<lparr>preDotState := v\<rparr>)"
      using step v(2) by (simp add: s2_def)
    then show ?thesis using v(1) False by blast
  qed
qed

lemma loop_stop:
  assumes "pre = [] \<or> last pre = CHR ''/''" "\<not> matchedSlash s"
  shows "\<exists>k. extname_loop pre (length pre) s = s\<lparr>startPart := k\<rparr>"
proof (cases "pre = []")
  case True
  have "s\<lparr>startPart := startPart s\<rparr> = s" by simp
  then show ?thesis using True by (metis extname_loop.simps(1) list.size(3))
next
  case False
  then obtain ys where ys: "pre = ys @ ''/''" using assms(1)
    by (metis append_butlast_last_id)
  show ?thesis unfolding ys using extname_loop_last[of ys "CHR ''/''" s] assms(2) by auto
qed

lemma extname_dot:
  assumes pre: "pre = [] \<or> last pre = CHR ''/''"
      and b: "b \<noteq> []" "CHR ''/'' \<notin> set b"
      and e: "e \<noteq> []" "CHR ''/'' \<notin> set e" "CHR ''.'' \<notin> set e"
  shows "extname (pre @ b @ ''.'' @ e) = ''.'' @ e"
proof -
  define p where "p = pre @ b @ ''.'' @ e"
  define L where "L = length p"
  define D where "D = length pre + length b"
  have pe: "\<forall>c\<in>set e. c \<noteq> CHR ''/'' \<and> c \<noteq> CHR ''.''" using e by auto
  have pb: "\<forall>c\<in>set b. c \<noteq> CHR ''/''" using b by auto
  define s1 where "s1 = ext_start\<lparr>matchedSlash := False, endPos := int L\<rparr>"
  have 1: "extname_loop p L ext_start = extname_loop (pre @ b @ ''.'') (Suc D) s1"
    using loop_plain_first[OF pe e(1), of "pre @ b @ ''.''"]
    by (simp del: extname_loop.simps add: p_def L_def D_def s1_def ac_simps)
  define s2 where "s2 = s1\<lparr>startDot := int D\<rparr>"
  have 2: "extname_loop (pre @ b @ ''.'') (Suc D) s1 = extname_loop (pre @ b) D s2"
    using extname_loop_last[of "pre @ b" "CHR ''.''" s1]
    by (simp del: extname_loop.simps add: D_def s1_def s2_def ext_start_def Let_def ac_simps)
  have q: "endPos s2 \<noteq> - 1" "startDot s2 \<noteq> - 1" by (simp_all add: s2_def s1_def)
  obtain v where v: "v \<noteq> 0"
    "extname_loop (pre @ b) D s2 = extname_loop pre (length pre) (s2\<lparr>preDotState := v\<rparr>)"
    using loop_before_dot[OF pb q, of pre] b(1) unfolding D_def by blast
  have "\<not> matchedSlash (s2\<lparr>preDotState := v\<rparr>)" by (simp add: s2_def s1_def)
  from loop_stop[OF pre this] obtain k where
    4: "extname_loop pre (length pre) (s2\<lparr>preDotState := v\<rparr>) = s2\<lparr>preDotState := v, startPart := k\<rparr>"
    by auto
  have fin: "extname_loop p (length p) ext_start = s2\<lparr>preDotState := v, startPart := k\<rparr>"
    using 1 2 v(2) 4 by (simp del: extname_loop.simps add: L_def ac_simps)
  have DL: "D + 1 + length e = L" by (simp add: D_def L_def p_def)
  have "0 < length e" using e(1) by simp
  then have ne: "int D \<noteq> int L - 1" using DL by linarith
  have "extname p = take (L - D) (drop D p)"
    unfolding extname_def ext_start_def[symmetric] fin Let_def
    using v(1) ne by (simp add: s2_def s1_def)
  also have "drop D p = ''.'' @ e" by (simp add: D_def p_def)
  also have "take (L - D) (''.'' @ e) = ''.'' @ e" using DL by simp
  finally show ?thesis by (simp add: p_def)
qed

lemma extname_plain:
  assumes pre: "pre = [] \<or> last pre = CHR ''/''"
      and b: "b \<noteq> []" "CHR ''/'' \<notin> set b" "CHR ''.'' \<notin> set b"
  shows "extname (pre @ b) = []"
proof -
  have pb: "\<forall>c\<in>set b. c \<noteq> CHR ''/'' \<and> c \<noteq> CHR ''.''" using b by auto
  define s1 where "s1 = ext_start\<lparr>matchedSlash := False, endPos := int (length pre + length b)\<rparr>"
  have 1: "extname_loop (pre @ b) (length (pre @ b)) ext_start = extname_loop pre (length pre) s1"
    using loop_plain_first[OF pb b(1), of pre] by (simp del: extname_loop.simps add: s1_def ac_simps)
  have "\<not> matchedSlash s1" by (simp add: s1_def)
  from loop_stop[OF pre this] obtain k where
    "extname_loop pre (length pre) s1 = s1\<lparr>startPart := k\<rparr>" by auto
  then have "extname_loop (pre @ b) (length (pre @ b)) ext_start = s1\<lparr>startPart := k\<rparr>"
    using 1 by (simp del: extname_loop.simps)
  then show ?thesis
    unfolding extname_def ext_start_def[symmetric] Let_def
    by (simp add: s1_def ext_start_def)
qed

lemma hex_table_inj:
  assumes "a < 16" "b < 16" "''0123456789abcdef'' ! a = ''0123456789abcdef'' ! b"
  shows "a = (b::nat)"
proof -
  have "distinct ''0123456789abcdef''" by simp
  then show ?thesis using assms by (simp add: nth_eq_iff_index_eq)
qed

lemma nibbles_eq:
  fixes w w' :: "256 word"
  assumes "\<And>i. i < 64 \<Longrightarrow> take_bit 4 (drop_bit (4 * i) w) = take_bit 4 (drop_bit (4 * i) w')"
  shows "w = w'"
proof (rule bit_word_eqI)
  fix n assume n: "n < LENGTH(256)"
  then have i: "n div 4 < 64" by simp
  have "bit w n = bit (take_bit 4 (drop_bit (4 * (n div 4)) w)) (n mod 4)"
    by (simp add: bit_take_bit_iff bit_drop_bit_eq)
  also have "\<dots> = bit (take_bit 4 (drop_bit (4 * (n div 4)) w')) (n mod 4)"
    using assms[OF i] by simp
  also have "\<dots> = bit w' n"
    by (simp add: bit_take_bit_iff bit_drop_bit_eq)
  finally show "bit w n = bit w' n" .
qed

lemma hex256_inj: "hex256 w = hex256 w' \<longleftrightarrow> w = w'"
proof
  assume eq: "hex256 w = hex256 w'"
  show "w = w'"
  proof (rule nibbles_eq)
    fix i :: nat assume i: "i < 64"
    define j where "j = 63 - i"
    have j: "j < 64" "63 - j = i" using i by (simp_all add: j_def)
    have "hex256 w ! j = hex256 w' ! j" using eq by simp
    then have "''0123456789abcdef'' ! unat (take_bit 4 (drop_bit (4 * i) w))
             = ''0123456789abcdef'' ! unat (take_bit 4 (drop_bit (4 * i) w'))"
      using j unfolding hex256_def by simp
    then have "unat (take_bit 4 (drop_bit (4 * i) w)) = unat (take_bit 4 (drop_bit (4 * i) w'))"
      using hex_table_inj[OF hex_digit hex_digit] by blast
    then show "take_bit 4 (drop_bit (4 * i) w) = take_bit 4 (drop_bit (4 * i) w')"
      by (simp add: word_unat_eq_iff)
  qed
next
  assume "w = w'" then show "hex256 w = hex256 w'" by simp
qed

lemma cacheKey_eq_iff:
  "cacheKeyFromPath N p = cacheKeyFromPath N q \<longleftrightarrow>
     sha256 N p = sha256 N q \<and> extname p = extname q"
proof -
  have "hex256 (sha256 N p) @ extname p = hex256 (sha256 N q) @ extname q \<longleftrightarrow>
          hex256 (sha256 N p) = hex256 (sha256 N q) \<and> extname p = extname q"
    by (rule append_eq_append_conv) (simp add: length_hex256)
  then show ?thesis by (simp add: cacheKeyFromPath_def hex256_inj)
qed

lemma demo_query_url: "URL_parse demo_node ''/a.png?x=1/2'' b = Some (''https:'', ''/a.png?x=1/2'')"
  by (simp add: demo_node_def)

lemma demo_query_key:
  "cacheKeyFromPath demo_node ''/a.png?x=1/2''
     = ''000000000000000000000000000000000000000000000000000000000000000c''"
  by code_simp

text \<open>
  Claim C7, as amended. The cache key of a path-plus-query string is a function of that
  string alone: the 64 lower-case hexadecimal digits of its SHA-256 digest, which
  determine the digest, followed by \<open>path.extname\<close> of the whole string, path and query
  together. Two strings have the same key exactly when they have the same digest and the
  same suffix. The suffix is empty or a dot followed by characters that are neither a dot
  nor a slash. Where the last segment of the string is \<open>name.ext\<close> (a name that is not
  empty, an extension without a dot) the suffix is \<open>.ext\<close>; where the last segment has no
  dot there is none. So the extension of the requested file is the suffix when the
  request has no query. The request handler uses the key, unchanged, as the payload's
  file name in the cache directory.
\<close>

theorem cacheKey_shape:
  "cacheKeyFromPath N p = hex256 (sha256 N p) @ extname p \<and>
   length (hex256 (sha256 N p)) = 64 \<and>
   set (hex256 (sha256 N p)) \<subseteq> set ''0123456789abcdef'' \<and>
   (\<forall>w w'. (hex256 w = hex256 w') = (w = w')) \<and>
   (\<forall>q. (cacheKeyFromPath N p = cacheKeyFromPath N q)
          = (sha256 N p = sha256 N q \<and> extname p = extname q)) \<and>
   (extname p = [] \<or>
      (\<exists>rest. extname p = CHR ''.'' # rest \<and> CHR ''/'' \<notin> set rest \<and> CHR ''.'' \<notin> set rest)) \<and>
   (\<forall>pre b e.
      (pre = [] \<or> last pre = CHR ''/'') \<and> b \<noteq> [] \<and> CHR ''/'' \<notin> set b \<and>
      e \<noteq> [] \<and> CHR ''/'' \<notin> set e \<and> CHR ''.'' \<notin> set e \<longrightarrow>
      extname (pre @ b @ ''.'' @ e) = ''.'' @ e) \<and>
   (\<forall>pre b.
      (pre = [] \<or> last pre = CHR ''/'') \<and> b \<noteq> [] \<and> CHR ''/'' \<notin> set b \<and> CHR ''.'' \<notin> set b \<longrightarrow>
      extname (pre @ b) = []) \<and>
   (\<forall>cfg m u st pr cf st'.
      proxyRequest N cfg m u st = Inr (Fetch pr cf st') \<longrightarrow>
      (\<exists>pq. URL_parse N u (imgurBaseUrl cfg) = Some (pr, pq) \<and>
            cf = hex256 (sha256 N pq) @ extname pq))"
proof (intro conjI allI impI)
  have k: "cacheKeyFromPath N q = hex256 (sha256 N q) @ extname q" for q
    by (simp add: cacheKeyFromPath_def)
  show "cacheKeyFromPath N p = hex256 (sha256 N p) @ extname p" by (rule k)
  show "length (hex256 (sha256 N p)) = 64" by (rule length_hex256)
  show "set (hex256 (sha256 N p)) \<subseteq> set ''0123456789abcdef''" by (rule set_hex256)
  show "(hex256 w = hex256 w') = (w = w')" for w w' by (rule hex256_inj)
  show "(cacheKeyFromPath N p = cacheKeyFromPath N q)
          = (sha256 N p = sha256 N q \<and> extname p = extname q)" for q
    by (rule cacheKey_eq_iff)
  show "extname p = [] \<or>
      (\<exists>rest. extname p = CHR ''.'' # rest \<and> CHR ''/'' \<notin> set rest \<and> CHR ''.'' \<notin> set rest)"
    by (rule extname_shape)
  show "extname (pre @ b @ ''.'' @ e) = ''.'' @ e"
    if "(pre = [] \<or> last pre = CHR ''/'') \<and> b \<noteq> [] \<and> CHR ''/'' \<notin> set b \<and>
        e \<noteq> [] \<and> CHR ''/'' \<notin> set e \<and> CHR ''.'' \<notin> set e" for pre b e
    using that by (intro extname_dot) simp_all
  show "extname (pre @ b) = []"
    if "(pre = [] \<or> last pre = CHR ''/'') \<and> b \<noteq> [] \<and> CHR ''/'' \<notin> set b \<and> CHR ''.'' \<notin> set b"
    for pre b
    using that by (intro extname_plain) simp_all
  fix cfg m u st pr cf st'
  assume "proxyRequest N cfg m u st = Inr (Fetch pr cf st')"
  from proxyRequest_Fetch[OF this]
  show "\<exists>pq. URL_parse N u (imgurBaseUrl cfg) = Some (pr, pq) \<and>
            cf = hex256 (sha256 N pq) @ extname pq"
    by (simp only: k)
qed

theorem cacheKey_shape_witness:
  "proxyRequest demo_node default_config ''GET'' ''/abc123.png'' (fresh [] 0)
     = Inr (Fetch ''https:''
              ''000000000000000000000000000000000000000000000000000000000000000b.png''
              (fresh [] 0)) \<and>
   URL_parse demo_node ''/abc123.png'' (imgurBaseUrl default_config)
     = Some (''https:'', ''/abc123.png'') \<and>
   hex256 (sha256 demo_node ''/abc123.png'') @ extname ''/abc123.png''
     = ''000000000000000000000000000000000000000000000000000000000000000b.png'' \<and>
   extname ''/abc123.png'' = ''.png'' \<and>
   extname ''/gallery/abc123'' = []"
proof -
  have a: "proxyRequest demo_node default_config ''GET'' ''/abc123.png'' (fresh [] 0)
     = Inr (Fetch ''https:''
              ''000000000000000000000000000000000000000000000000000000000000000b.png''
              (fresh [] 0))"
    by (simp add: proxyRequest_def demo_url demo_key existsSync_def fresh_def)
  note T = cacheKey_shape[of demo_node "''/abc123.png''"]
  have d: "\<forall>pre b e.
      (pre = [] \<or> last pre = CHR ''/'') \<and> b \<noteq> [] \<and> CHR ''/'' \<notin> set b \<and>
      e \<noteq> [] \<and> CHR ''/'' \<notin> set e \<and> CHR ''.'' \<notin> set e \<longrightarrow>
      extname (pre @ b @ ''.'' @ e) = ''.'' @ e"
    using T by - (elim conjE, assumption)
  have n: "\<forall>pre b.
      (pre = [] \<or> last pre = CHR ''/'') \<and> b \<noteq> [] \<and> CHR ''/'' \<notin> set b \<and> CHR ''.'' \<notin> set b \<longrightarrow>
      extname (pre @ b) = []"
    using T by - (elim conjE, assumption)
  have e1: "extname ''/abc123.png'' = ''.png''"
    using d[rule_format, of "''/''" "''abc123''" "''png''"] by simp
  have e2: "extname ''/gallery/abc123'' = []"
    using n[rule_format, of "''/gallery/''" "''abc123''"] by simp
  from T a demo_url demo_key e1 e2
  show ?thesis by (simp only: simp_thms)
qed

text \<open>
  Claim C7 as stated has the file extension of the request kept as the suffix. The
  suffix is taken from the path and the query together: for the image \<open>/a.png\<close> a query
  with a slash after its last dot leaves no suffix, and a query with a dot puts what
  follows that dot in its place.
\<close>

theorem cacheKey_query_counterexample:
  "drop 64 (cacheKeyFromPath demo_node ''/a.png'') = ''.png'' \<and>
   drop 64 (cacheKeyFromPath demo_node ''/a.png?x=1/2'') = [] \<and>
   drop 64 (cacheKeyFromPath demo_node ''/a.png?v=1.5'') = ''.5'' \<and>
   proxyRequest demo_node default_config ''GET'' ''/a.png?x=1/2'' (fresh [] 0)
     = Inr (Fetch ''https:''
              ''000000000000000000000000000000000000000000000000000000000000000c''
              (fresh [] 0))"
proof -
  have 1: "drop 64 (cacheKeyFromPath demo_node ''/a.png'') = ''.png''" by code_simp
  have 2: "drop 64 (cacheKeyFromPath demo_node ''/a.png?x=1/2'') = []" by code_simp
  have 3: "drop 64 (cacheKeyFromPath demo_node ''/a.png?v=1.5'') = ''.5''" by code_simp
  have 4: "proxyRequest demo_node default_config ''GET'' ''/a.png?x=1/2'' (fresh [] 0)
     = Inr (Fetch ''https:''
              ''000000000000000000000000000000000000000000000000000000000000000c''
              (fresh [] 0))"
    by (simp add: proxyRequest_def demo_query_url demo_query_key existsSync_def fresh_def)
  show ?thesis using 1 2 3 4 by (simp only: simp_thms)
qed

subsection \<open>Placeholder renderer and failure responses\<close>

lemma replaceAll_Nil: "replaceAll c r [] = []"
  by (simp add: replaceAll_def)

lemma replaceAll_Cons: "replaceAll c r (x # xs) = (if x = c then r else [x]) @ replaceAll c r xs"
  by (simp add: replaceAll_def)

lemma replaceAll_append: "replaceAll c r (a @ b) = replaceAll c r a @ replaceAll c r b"
  by (simp add: replaceAll_def)

lemma escapeXml_Nil: "escapeXml [] = []"
  by (simp add: escapeXml_def replaceAll_Nil)

lemma escapeXml_append: "escapeXml (a @ b) = escapeXml a @ escapeXml b"
  by (simp add: escapeXml_def replaceAll_append)

lemma escapeXml_single: "escapeXml [c] = esc c"
  by (simp add: escapeXml_def esc_def replaceAll_Cons replaceAll_Nil)

lemma escapeXml_Cons: "escapeXml (c # cs) = esc c @ escapeXml cs"
  using escapeXml_append[of "[c]" cs] by (simp add: escapeXml_single)

lemma escapeXml_concat: "escapeXml s = concat (map esc s)"
  by (induction s) (simp_all add: escapeXml_Nil escapeXml_Cons)

lemma esc_ws: "is_ws c \<Longrightarrow> esc c = [c]"
  by (auto simp: is_ws_def esc_def)

lemma esc_not_ws: "\<not> is_ws c \<Longrightarrow> \<exists>h t. esc c = h # t \<and> \<not> is_ws h \<and> \<not> is_ws (last (h # t))"
  by (auto simp: esc_def is_ws_def)

lemma esc_space: "CHR '' '' \<in> set (esc c) \<longleftrightarrow> c = CHR '' ''"
  by (auto simp: esc_def)

lemma esc_no_markup:
  "set (esc c) \<inter> {CHR ''<'', CHR ''>'', CHR 0x22, CHR 0x27} = {}"
  by (auto simp: esc_def)

lemma escapeXml_no_markup:
  "set (escapeXml s) \<inter> {CHR ''<'', CHR ''>'', CHR 0x22, CHR 0x27} = {}"
proof (induction s)
  case Nil
  then show ?case by (simp add: escapeXml_Nil)
next
  case (Cons c cs)
  then show ?case using esc_no_markup[of c] by (simp add: escapeXml_Cons Int_Un_distrib2)
qed

lemma dropWhile_ws_escapeXml:
  "dropWhile is_ws (escapeXml u) = escapeXml (dropWhile is_ws u)"
proof (induction u)
  case Nil
  then show ?case by (simp add: escapeXml_Nil)
next
  case (Cons c cs)
  show ?case
  proof (cases "is_ws c")
    case True
    then show ?thesis using Cons by (simp add: escapeXml_Cons esc_ws)
  next
    case False
    then obtain h t where "esc c = h # t" "\<not> is_ws h" using esc_not_ws by blast
    then show ?thesis using False by (simp add: escapeXml_Cons)
  qed
qed

lemma dropWhile_ws_rev_escapeXml:
  "dropWhile is_ws (rev (escapeXml u)) = rev (escapeXml (rev (dropWhile is_ws (rev u))))"
proof (induction u rule: rev_induct)
  case Nil
  then show ?case by (simp add: escapeXml_Nil)
next
  case (snoc c v)
  show ?case
  proof (cases "is_ws c")
    case True
    then show ?thesis using snoc by (simp add: escapeXml_append escapeXml_single esc_ws)
  next
    case False
    then obtain h t where e: "esc c = h # t" and l: "\<not> is_ws (last (h # t))"
      using esc_not_ws by blast
    have "rev (esc c) = last (h # t) # rev (butlast (h # t))"
      unfolding e by (metis append_butlast_last_id list.distinct(1) rev.simps(2) rev_swap)
    then have "dropWhile is_ws (rev (esc c) @ rev (escapeXml v)) = rev (esc c) @ rev (escapeXml v)"
      using l by simp
    then show ?thesis using False by (simp add: escapeXml_append escapeXml_single)
  qed
qed

lemma trim_escapeXml: "trim (escapeXml u) = escapeXml (trim u)"
  by (simp add: trim_def dropWhile_ws_escapeXml dropWhile_ws_rev_escapeXml)

lemma split_sp_not_Nil: "split_sp s \<noteq> []"
  by (induction s) (auto split: list.splits)

lemma split_sp_prefix:
  "CHR '' '' \<notin> set a \<Longrightarrow> split_sp (a @ b) = (a @ hd (split_sp b)) # tl (split_sp b)"
proof (induction a)
  case Nil
  then show ?case using split_sp_not_Nil[of b] by simp
next
  case (Cons c a)
  then show ?case by auto
qed

lemma split_sp_escapeXml: "split_sp (escapeXml s) = map escapeXml (split_sp s)"
proof (induction s)
  case Nil
  then show ?case by (simp add: escapeXml_Nil)
next
  case (Cons c cs)
  show ?case
  proof (cases "c = CHR '' ''")
    case True
    then have "esc c = '' ''" by (simp add: esc_def)
    then show ?thesis using True Cons by (simp add: escapeXml_Cons escapeXml_Nil)
  next
    case False
    then have ns: "CHR '' '' \<notin> set (esc c)" by (simp add: esc_space)
    obtain w ws where ws: "split_sp cs = w # ws"
      using split_sp_not_Nil[of cs] by (cases "split_sp cs") auto
    show ?thesis
      using False Cons ws split_sp_prefix[OF ns, of "escapeXml cs"]
      by (simp add: escapeXml_Cons)
  qed
qed

lemma split_sp_no_space: "w \<in> set (split_sp s) \<Longrightarrow> CHR '' '' \<notin> set w"
proof (induction s arbitrary: w)
  case Nil
  then show ?case by simp
next
  case (Cons c cs)
  obtain v vs where vs: "split_sp cs = v # vs"
    using split_sp_not_Nil[of cs] by (cases "split_sp cs") auto
  show ?case
  proof (cases "c = CHR '' ''")
    case True
    then show ?thesis using Cons by auto
  next
    case False
    then have "w = c # v \<or> w \<in> set vs" using Cons.prems vs by simp
    then show ?thesis using False Cons.IH[of v] Cons.IH[of w] vs by auto
  qed
qed

lemma split_sp_join: "concat (map (\<lambda>w. w @ '' '') (split_sp t)) = t @ '' ''"
proof (induction t)
  case Nil
  then show ?case by simp
next
  case (Cons c cs)
  obtain v vs where vs: "split_sp cs = v # vs"
    using split_sp_not_Nil[of cs] by (cases "split_sp cs") auto
  then show ?case using Cons by (cases "c = CHR '' ''") simp_all
qed

lemma trim_snoc_space: "trim (b @ '' '') = trim b"
proof (cases "\<forall>x\<in>set b. is_ws x")
  case True
  then have A: "dropWhile is_ws b = []" by simp
  have "is_ws CHR '' ''" by (simp add: is_ws_def)
  then have B: "dropWhile is_ws (b @ '' '') = []"
    using True unfolding dropWhile_eq_Nil_conv by simp
  show ?thesis unfolding trim_def A B by simp
next
  case False
  then obtain x where "x \<in> set b" "\<not> is_ws x" by blast
  then have d: "dropWhile is_ws (b @ '' '') = dropWhile is_ws b @ '' ''"
    by (simp add: dropWhile_append1)
  have "is_ws CHR '' ''" by (simp add: is_ws_def)
  then show ?thesis by (simp add: trim_def d)
qed

lemma length_trim: "length (trim b) \<le> length b"
  unfolding trim_def
  by (metis length_dropWhile_le length_rev order_trans)

lemma set_trim: "set (trim b) \<subseteq> set b"
  unfolding trim_def
  by (metis set_dropWhileD set_rev subsetI)

lemma wrap_loop_pres:
  assumes words: "\<And>w. w \<in> set ws \<Longrightarrow> Q w"
    and step1: "\<And>w. Q w \<Longrightarrow> P (w @ '' '')"
    and step2: "\<And>l w. P l \<Longrightarrow> Q w \<Longrightarrow> length (l @ w) \<le> m \<Longrightarrow> P (l @ w @ '' '')"
    and push: "\<And>l. P l \<Longrightarrow> R (trim l)"
    and init: "P line" "\<forall>l \<in> set lines. R l"
    and res: "wrap_loop m ws lines line = (lines', line')"
  shows "P line' \<and> (\<forall>l \<in> set lines'. R l)"
  using words init res
proof (induction ws arbitrary: lines line)
  case Nil
  then show ?case by simp
next
  case (Cons w ws)
  have q: "Q w" using Cons.prems(1) by simp
  have rest: "\<And>v. v \<in> set ws \<Longrightarrow> Q v" using Cons.prems(1) by simp
  show ?case
  proof (cases "length (line @ w) > m")
    case True
    have "wrap_loop m ws (lines @ [trim line]) (w @ '' '') = (lines', line')"
      using Cons.prems(4) True by simp
    moreover have "\<forall>l \<in> set (lines @ [trim line]). R l"
      using Cons.prems(2,3) push by simp
    ultimately show ?thesis
      using Cons.IH[OF rest step1[OF q]] by blast
  next
    case False
    have "wrap_loop m ws lines (line @ w @ '' '') = (lines', line')"
      using Cons.prems(4) False by simp
    moreover have "P (line @ w @ '' '')"
      using step2[OF Cons.prems(2) q] False by simp
    ultimately show ?thesis
      using Cons.IH[OF rest _ Cons.prems(3)] by blast
  qed
qed

lemma wrapText_pres:
  assumes words: "\<And>w. w \<in> set (split_sp text) \<Longrightarrow> Q w"
    and step1: "\<And>w. Q w \<Longrightarrow> P (w @ '' '')"
    and step2: "\<And>l w. P l \<Longrightarrow> Q w \<Longrightarrow> length (l @ w) \<le> m \<Longrightarrow> P (l @ w @ '' '')"
    and push: "\<And>l. P l \<Longrightarrow> R (trim l)"
    and init: "P []"
    and mem: "x \<in> set (wrapText text m)"
  shows "R x"
proof -
  obtain lines' line' where res: "wrap_loop m (split_sp text) [] [] = (lines', line')"
    by (cases "wrap_loop m (split_sp text) [] []") auto
  have "P line' \<and> (\<forall>l \<in> set lines'. R l)"
    by (rule wrap_loop_pres[where Q = Q and P = P and R = R, OF words step1 step2 push init _ res])
       simp_all
  then have "\<forall>l \<in> set (wrapText text m). R l"
    using push by (simp add: wrapText_def res)
  then show ?thesis using mem by blast
qed

lemma wrapText_escaped:
  assumes "x \<in> set (wrapText (escapeXml reason) m)"
  shows "\<exists>u. x = escapeXml u"
proof (rule wrapText_pres[where Q = "\<lambda>w. \<exists>u. w = escapeXml u" and P = "\<lambda>w. \<exists>u. w = escapeXml u",
        OF _ _ _ _ _ assms])
  show "\<exists>u. w = escapeXml u" if "w \<in> set (split_sp (escapeXml reason))" for w
    using that by (auto simp: split_sp_escapeXml)
  have sp: "escapeXml '' '' = '' ''" by (simp add: escapeXml_single esc_def)
  show "\<exists>u. w @ '' '' = escapeXml u" if "\<exists>u. w = escapeXml u" for w
  proof -
    from that obtain u where "w = escapeXml u" by blast
    then have "w @ '' '' = escapeXml (u @ '' '')" by (simp add: escapeXml_append sp)
    then show ?thesis by blast
  qed
  show "\<exists>u. l @ w @ '' '' = escapeXml u" if "\<exists>u. l = escapeXml u" "\<exists>u. w = escapeXml u" for l w
  proof -
    from that obtain u v where "l = escapeXml u" "w = escapeXml v" by blast
    then have "l @ w @ '' '' = escapeXml (u @ v @ '' '')" by (simp add: escapeXml_append sp)
    then show ?thesis by blast
  qed
  show "\<exists>u. trim l = escapeXml u" if "\<exists>u. l = escapeXml u" for l
    using that trim_escapeXml by metis
  show "\<exists>u. [] = escapeXml u" using escapeXml_Nil by metis
qed

lemma wrapText_width:
  assumes "x \<in> set (wrapText text m)"
  shows "length x \<le> m \<or> CHR '' '' \<notin> set x"
proof (rule wrapText_pres[where Q = "\<lambda>w. CHR '' '' \<notin> set w"
        and P = "\<lambda>l. l = [] \<or> (\<exists>b. l = b @ '' '' \<and> (length b \<le> m \<or> CHR '' '' \<notin> set b))",
        OF _ _ _ _ _ assms])
  show "CHR '' '' \<notin> set w" if "w \<in> set (split_sp text)" for w
    using that by (rule split_sp_no_space)
  show "w @ '' '' = [] \<or> (\<exists>b. w @ '' '' = b @ '' '' \<and> (length b \<le> m \<or> CHR '' '' \<notin> set b))"
    if "CHR '' '' \<notin> set w" for w
    using that by blast
  show "l @ w @ '' '' = [] \<or> (\<exists>b. l @ w @ '' '' = b @ '' '' \<and> (length b \<le> m \<or> CHR '' '' \<notin> set b))"
    if "length (l @ w) \<le> m" for l w
  proof -
    have "l @ w @ '' '' = (l @ w) @ '' ''" by simp
    then show ?thesis using that by blast
  qed
  show "length (trim l) \<le> m \<or> CHR '' '' \<notin> set (trim l)"
    if asm: "l = [] \<or> (\<exists>b. l = b @ '' '' \<and> (length b \<le> m \<or> CHR '' '' \<notin> set b))" for l
  proof (cases "l = []")
    case True
    then show ?thesis by (simp add: trim_def)
  next
    case False
    with asm obtain b where b: "l = b @ '' ''" "length b \<le> m \<or> CHR '' '' \<notin> set b"
      by blast
    have "trim l = trim b" by (simp add: b(1) trim_snoc_space)
    then show ?thesis using b(2) length_trim[of b] set_trim[of b] by auto
  qed
  show "[] = [] \<or> (\<exists>b. [] = b @ '' '' \<and> (length b \<le> m \<or> CHR '' '' \<notin> set b))" by simp
qed

lemma wrap_loop_fits:
  "length line + length (concat (map (\<lambda>w. w @ '' '') ws)) \<le> Suc m \<Longrightarrow>
   wrap_loop m ws lines line = (lines, line @ concat (map (\<lambda>w. w @ '' '') ws))"
  by (induction ws arbitrary: line) auto

lemma wrapText_short:
  assumes "length t \<le> m" "trim t = t" "t \<noteq> []"
  shows "wrapText t m = [t]"
proof -
  have "wrap_loop m (split_sp t) [] [] = ([], t @ '' '')"
    using wrap_loop_fits[of "[]" "split_sp t" m "[]"] assms(1) by (simp add: split_sp_join)
  then show ?thesis using assms(2,3) by (simp add: wrapText_def trim_snoc_space)
qed

lemma wrapText_empty: "wrapText (escapeXml []) 42 = []"
  by (simp add: wrapText_def escapeXml_Nil trim_def is_ws_def)

lemma zip_upt_nth: "zip ls [0 ..< length ls] = map (\<lambda>i. (ls ! i, i)) [0 ..< length ls]"
  by (rule nth_equalityI) simp_all

lemma render_typed:
  "renderFailureSvg N (image_json (failureImage cfg)) reason = Inr (svg_of N cfg reason)"
  by (simp add: svg_of_def renderFailureSvg_def read_prop_def image_json_def Let_def)

lemma svg_of_document:
  "svg_of N cfg reason =
     svgProlog N (PNum (of_int (width (failureImage cfg)))) (PNum (of_int (height (failureImage cfg))))
         (PStr (background (failureImage cfg))) (PStr (textColor (failureImage cfg)))
         (PStr (accentColor (failureImage cfg)))
     @ textSpans N (PNum (of_int (width (failureImage cfg)))) (PNum (of_int (height (failureImage cfg))))
         (wrapText (escapeXml reason) 42)
     @ svgEpilog"
  by (simp add: svg_of_def renderFailureSvg_def read_prop_def image_json_def Let_def)

lemma svg_of_not_Nil: "svg_of N cfg reason \<noteq> []"
  by (simp add: svg_of_document svgProlog_def)

lemma has_body_413 [simp]: "has_body 413"
  by (simp add: has_body_def)

lemma sendFailure_result:
  assumes "resHead st = None" "100 \<le> (case sc of None \<Rightarrow> 413 | Some c \<Rightarrow> c)"
    "(case sc of None \<Rightarrow> 413 | Some c \<Rightarrow> c) \<le> 999"
  shows "sendFailure N cfg reason sc st =
           Inr (st\<lparr>resHead := Some ((case sc of None \<Rightarrow> 413 | Some c \<Rightarrow> c),
                 [(''Content-Type'', JStr ''image/svg+xml; charset=utf-8''),
                  (''Cache-Control'', JStr ''no-store''),
                  (''Content-Length'', JNum (of_nat (byteLength (svg_of N cfg reason))))]),
               resBody := Some (Text (if has_body (case sc of None \<Rightarrow> 413 | Some c \<Rightarrow> c)
                                      then svg_of N cfg reason else []))\<rparr>)"
  using assms
  by (simp add: sendFailure_def render_typed writeHead_def res_end_def body_allowed_def
      header_char_ok_def Let_def)

lemma unlink_staging:
  assumes "deletable p st"
  shows "(if existsSync p st then unlinkSync p st else Inr st)
           = Inr (st\<lparr>files := remove_entry p (files st),
                    effects := effects st @ (if existsSync p st then [Unlink p] else [])\<rparr>)"
proof (cases "map_of (files st) p")
  case None
  then have "remove_entry p (files st) = files st"
    by (force simp: remove_entry_def map_of_eq_None_iff filter_id_conv)
  with None show ?thesis by (simp add: existsSync_def)
next
  case (Some f)
  then show ?thesis using assms by (simp add: existsSync_def unlinkSync_def deletable_def)
qed

lemma dec_digits: "set (dec n) \<subseteq> set ''0123456789''"
proof (induction n rule: dec.induct)
  case (1 n)
  have d: "''0123456789'' ! k \<in> set ''0123456789''" if "k < 10" for k
    using that nth_mem[of k "''0123456789''"] by simp
  show ?case
  proof (cases "n < 10")
    case True
    then show ?thesis using d[of n] by (subst dec.simps) simp
  next
    case False
    have "n mod 10 < 10" by simp
    then show ?thesis using False 1 d[of "n mod 10"] by (subst dec.simps) simp
  qed
qed

lemma length_dec_3: "n < 1000 \<Longrightarrow> length (dec n) \<le> 3"
  by (simp add: dec.simps[of n] dec.simps[of "n div 10"] dec.simps[of "n div 10 div 10"])

lemma escapeXml_plain:
  "set s \<inter> {CHR ''&'', CHR ''<'', CHR ''>'', CHR 0x22, CHR 0x27} = {} \<Longrightarrow> escapeXml s = s"
  by (induction s) (auto simp: escapeXml_Nil escapeXml_Cons esc_def)

lemma escapeXml_dec: "escapeXml (dec n) = dec n"
  using dec_digits[of n] by (intro escapeXml_plain) auto

lemma status_reason_line:
  assumes "n < 1000"
  shows "wrapText (escapeXml (''Imgur responded with status '' @ dec n @ ''.'')) 42
           = [''Imgur responded with status '' @ dec n @ ''.'']"
proof -
  have e: "escapeXml (''Imgur responded with status '' @ dec n @ ''.'')
             = ''Imgur responded with status '' @ dec n @ ''.''"
    by (simp add: escapeXml_append escapeXml_dec escapeXml_Cons escapeXml_Nil esc_def)
  have t: "trim (''Imgur responded with status '' @ dec n @ ''.'')
             = ''Imgur responded with status '' @ dec n @ ''.''"
    by (simp add: trim_def is_ws_def)
  show ?thesis
    unfolding e using length_dec_3[OF assms] by (intro wrapText_short t) simp_all
qed

lemma status_in_body:
  assumes "n < 1000"
  shows "\<exists>a b. svg_of N cfg (''Imgur responded with status '' @ dec n @ ''.'')
                 = a @ dec n @ b"
proof -
  define t where "t = ''Imgur responded with status '' @ dec n @ ''.''"
  define fi where "fi = failureImage cfg"
  define w h where "w = PNum (of_int (width fi))" and "h = PNum (of_int (height fi))"
  define pro where "pro = svgProlog N w h (PStr (background fi)) (PStr (textColor fi))
      (PStr (accentColor fi))"
  have l: "wrapText (escapeXml t) 42 = [t]"
    unfolding t_def by (rule status_reason_line[OF assms])
  have r: "svg_of N cfg t = pro @ textSpan N w h 1 (t, 0) @ svgEpilog"
    by (simp add: svg_of_document l textSpans_def fi_def w_def h_def pro_def)
  obtain p where p: "textSpan N w h 1 (t, 0) = p @ t @ ''</text>''"
    by (simp add: textSpan_def)
  have "svg_of N cfg t
          = (pro @ p @ ''Imgur responded with status '') @ dec n
            @ (''.'' @ ''</text>'' @ svgEpilog)"
    unfolding r p by (simp add: t_def)
  then show ?thesis unfolding t_def by blast
qed

lemma on_data_abort:
  assumes "resHead st = None" "\<not> aborted st" "downloaded st + length chunk > maxDownloadBytes cfg"
    "deletable (tempFileFor cf) st"
  shows "on_data N cfg cf chunk st =
           Inr (st\<lparr>downloaded := downloaded st + length chunk, aborted := True,
                  proxyRes := Destroyed, fileStream := Some Torn, pending := [],
                  files := remove_entry (tempFileFor cf) (files st),
                  effects := effects st @ (if existsSync (tempFileFor cf) st
                                            then [Unlink (tempFileFor cf)] else []),
                  resHead := Some (413,
                    [(''Content-Type'', JStr ''image/svg+xml; charset=utf-8''),
                     (''Cache-Control'', JStr ''no-store''),
                     (''Content-Length'', JNum (of_nat (byteLength (svg_of N cfg oversize_text))))]),
                  resBody := Some (Text (svg_of N cfg oversize_text))\<rparr>)"
proof -
  define st1 where "st1 = st\<lparr>downloaded := downloaded st + length chunk, aborted := True,
                  proxyRes := Destroyed, fileStream := Some Torn, pending := []\<rparr>"
  have d: "deletable (tempFileFor cf) st1" using assms(4) by (simp add: deletable_def st1_def)
  have e: "existsSync (tempFileFor cf) st1 = existsSync (tempFileFor cf) st"
    by (simp add: existsSync_def st1_def)
  have "on_data N cfg cf chunk st =
          (case (if existsSync (tempFileFor cf) st1 then unlinkSync (tempFileFor cf) st1 else Inr st1) of
             Inl e \<Rightarrow> Inl e
           | Inr st2 \<Rightarrow> sendFailure N cfg oversize_text None st2)"
    using assms(2,3) by (simp add: on_data_def Let_def st1_def)
  also have "\<dots> = sendFailure N cfg oversize_text None
                     (st1\<lparr>files := remove_entry (tempFileFor cf) (files st1),
                          effects := effects st1 @ (if existsSync (tempFileFor cf) st1
                                                    then [Unlink (tempFileFor cf)] else [])\<rparr>)"
    by (simp only: unlink_staging[OF d] sum.case)
  also have "\<dots> = Inr (st\<lparr>downloaded := downloaded st + length chunk, aborted := True,
                  proxyRes := Destroyed, fileStream := Some Torn, pending := [],
                  files := remove_entry (tempFileFor cf) (files st),
                  effects := effects st @ (if existsSync (tempFileFor cf) st
                                            then [Unlink (tempFileFor cf)] else []),
                  resHead := Some (413,
                    [(''Content-Type'', JStr ''image/svg+xml; charset=utf-8''),
                     (''Cache-Control'', JStr ''no-store''),
                     (''Content-Length'', JNum (of_nat (byteLength (svg_of N cfg oversize_text))))]),
                  resBody := Some (Text (svg_of N cfg oversize_text))\<rparr>)"
    unfolding e using assms(1) by (subst sendFailure_result) (simp_all add: st1_def)
  finally show ?thesis .
qed

lemma on_data_write:
  assumes "\<not> aborted st" "downloaded st + length chunk \<le> maxDownloadBytes cfg"
  shows "on_data N cfg cf chunk st =
           Inr (write_chunk (tempFileFor cf) chunk (st\<lparr>downloaded := downloaded st + length chunk\<rparr>))"
  using assms by (simp add: on_data_def Let_def)

lemma on_error_result:
  assumes "resHead st = None" "\<not> aborted st" "deletable (tempFileFor cf) st"
  shows "on_error N cfg cf msg st =
           Inr (st\<lparr>fileStream := Some Torn, pending := [],
                  files := remove_entry (tempFileFor cf) (files st),
                  effects := effects st @ (if existsSync (tempFileFor cf) st
                                            then [Unlink (tempFileFor cf)] else []),
                  resHead := Some (413,
                    [(''Content-Type'', JStr ''image/svg+xml; charset=utf-8''),
                     (''Cache-Control'', JStr ''no-store''),
                     (''Content-Length'', JNum (of_nat (byteLength (svg_of N cfg (''Proxy error: '' @ msg)))))]),
                  resBody := Some (Text (svg_of N cfg (''Proxy error: '' @ msg)))\<rparr>)"
proof -
  define st1 where "st1 = st\<lparr>fileStream := Some Torn, pending := []\<rparr>"
  have d: "deletable (tempFileFor cf) st1" using assms(3) by (simp add: deletable_def st1_def)
  have e: "existsSync (tempFileFor cf) st1 = existsSync (tempFileFor cf) st"
    by (simp add: existsSync_def st1_def)
  have "on_error N cfg cf msg st =
          (case (if existsSync (tempFileFor cf) st1 then unlinkSync (tempFileFor cf) st1 else Inr st1) of
             Inl e \<Rightarrow> Inl e
           | Inr st2 \<Rightarrow> sendFailure N cfg (''Proxy error: '' @ msg) None st2)"
    using assms(2) by (simp add: on_error_def Let_def st1_def)
  also have "\<dots> = sendFailure N cfg (''Proxy error: '' @ msg) None
                     (st1\<lparr>files := remove_entry (tempFileFor cf) (files st1),
                          effects := effects st1 @ (if existsSync (tempFileFor cf) st1
                                                    then [Unlink (tempFileFor cf)] else [])\<rparr>)"
    by (simp only: unlink_staging[OF d] sum.case)
  also have "\<dots> = Inr (st\<lparr>fileStream := Some Torn, pending := [],
                  files := remove_entry (tempFileFor cf) (files st),
                  effects := effects st @ (if existsSync (tempFileFor cf) st
                                            then [Unlink (tempFileFor cf)] else []),
                  resHead := Some (413,
                    [(''Content-Type'', JStr ''image/svg+xml; charset=utf-8''),
                     (''Cache-Control'', JStr ''no-store''),
                     (''Content-Length'', JNum (of_nat (byteLength (svg_of N cfg (''Proxy error: '' @ msg)))))]),
                  resBody := Some (Text (svg_of N cfg (''Proxy error: '' @ msg)))\<rparr>)"
    unfolding e using assms(1) by (subst sendFailure_result) (simp_all add: st1_def)
  finally show ?thesis .
qed

lemma on_response_reject:
  assumes "resHead st = None"
  shows "statusCode up \<noteq> 200 \<Longrightarrow> 100 \<le> statusCode up \<Longrightarrow> statusCode up \<le> 999 \<Longrightarrow>
           on_response N cfg cf up st =
             Inr (st\<lparr>resHead := Some (statusCode up,
                    [(''Content-Type'', JStr ''image/svg+xml; charset=utf-8''),
                     (''Cache-Control'', JStr ''no-store''),
                     (''Content-Length'', JNum (of_nat (byteLength (svg_of N cfg
                        (''Imgur responded with status '' @ dec (statusCode up) @ ''.'')))))]),
                  resBody := Some (Text (if has_body (statusCode up) then svg_of N cfg
                        (''Imgur responded with status '' @ dec (statusCode up) @ ''.'') else [])),
                  proxyRes := Draining\<rparr>)"
    and "statusCode up = 200 \<Longrightarrow> \<not> startsWith (contentTypeOf up) ''image/'' \<Longrightarrow>
           on_response N cfg cf up st =
             Inr (st\<lparr>resHead := Some (413,
                    [(''Content-Type'', JStr ''image/svg+xml; charset=utf-8''),
                     (''Cache-Control'', JStr ''no-store''),
                     (''Content-Length'', JNum (of_nat (byteLength (svg_of N cfg
                        ''Imgur response was not an image.''))))]),
                  resBody := Some (Text (svg_of N cfg ''Imgur response was not an image.'')),
                  proxyRes := Draining\<rparr>)"
    and "statusCode up = 200 \<Longrightarrow> startsWith (contentTypeOf up) ''image/'' \<Longrightarrow>
         declared_oversize N cfg up \<Longrightarrow>
           on_response N cfg cf up st =
             Inr (st\<lparr>resHead := Some (413,
                    [(''Content-Type'', JStr ''image/svg+xml; charset=utf-8''),
                     (''Cache-Control'', JStr ''no-store''),
                     (''Content-Length'', JNum (of_nat (byteLength (svg_of N cfg oversize_text))))]),
                  resBody := Some (Text (svg_of N cfg oversize_text)),
                  proxyRes := Draining\<rparr>)"
  using assms
  by (simp_all add: on_response_def sendFailure_result resume_def)

lemma on_response_accept:
  assumes "statusCode up = 200" "startsWith (contentTypeOf up) ''image/''"
    "\<not> declared_oversize N cfg up"
  shows "on_response N cfg cf up st =
           Inr ((createWriteStream (tempFileFor cf) st)
                  \<lparr>downloaded := 0, aborted := False, proxyRes := Ingesting\<rparr>)"
  using assms by (simp add: on_response_def)

lemma invalid_url_reply:
  assumes "resHead st = None" "URL_parse N url (imgurBaseUrl cfg) = None" "url \<noteq> ''/''" "url \<noteq> []"
  shows "proxyRequest N cfg ''GET'' url st =
           Inr (Replied (st\<lparr>resHead := Some (413,
                    [(''Content-Type'', JStr ''image/svg+xml; charset=utf-8''),
                     (''Cache-Control'', JStr ''no-store''),
                     (''Content-Length'', JNum (of_nat (byteLength (svg_of N cfg
                        ''Invalid request URL.''))))]),
                  resBody := Some (Text (svg_of N cfg ''Invalid request URL.''))\<rparr>))"
  using assms by (simp add: proxyRequest_def sendFailure_result)

lemma on_request_error_result:
  assumes "resHead st = None"
  shows "on_request_error N cfg msg st =
           Inr (st\<lparr>resHead := Some (413,
                    [(''Content-Type'', JStr ''image/svg+xml; charset=utf-8''),
                     (''Cache-Control'', JStr ''no-store''),
                     (''Content-Length'', JNum (of_nat (byteLength (svg_of N cfg
                        (''Request failed: '' @ msg)))))]),
                  resBody := Some (Text (svg_of N cfg (''Request failed: '' @ msg)))\<rparr>)"
  using assms by (simp add: on_request_error_def sendFailure_result)

lemma digits_value_snoc: "digits_value (s @ [c]) = 10 * digits_value s + (of_char c - 48)"
  by (simp add: digits_value_def)

lemma digit_char: "n < 10 \<Longrightarrow> (of_char (''0123456789'' ! n) :: nat) - 48 = n"
proof -
  assume "n < 10"
  then have "n \<in> {0,1,2,3,4,5,6,7,8,9}" by auto
  then show ?thesis by auto
qed

lemma dec_value: "digits_value (dec n) = n"
proof (induction n rule: dec.induct)
  case (1 n)
  show ?case
  proof (cases "n < 10")
    case True
    then show ?thesis
      using digit_char[OF True] digits_value_snoc[of "[]" "''0123456789'' ! n"]
      by (subst dec.simps) (simp add: digits_value_def)
  next
    case False
    have m: "n mod 10 < 10" by simp
    show ?thesis
      using 1[OF False] False digit_char[OF m]
      by (subst dec.simps) (simp add: digits_value_snoc)
  qed
qed

lemma dec_not_Nil: "dec n \<noteq> []"
  by (subst dec.simps) simp

lemma digit_nonzero: "0 < n \<Longrightarrow> n < 10 \<Longrightarrow> ''0123456789'' ! n \<noteq> CHR ''0''"
proof -
  assume "0 < n" "n < 10"
  then have "n \<in> {1,2,3,4,5,6,7,8,9}" by auto
  then show ?thesis by auto
qed

lemma dec_no_leading_zero: "0 < n \<Longrightarrow> hd (dec n) \<noteq> CHR ''0''"
proof (induction n rule: dec.induct)
  case (1 n)
  show ?case
  proof (cases "n < 10")
    case True
    then show ?thesis using digit_nonzero[OF 1(2) True] by (subst dec.simps) simp
  next
    case False
    then have "0 < n div 10" by (simp add: div_greater_zero_iff)
    from 1(1)[OF False this] show ?thesis
      using False dec_not_Nil[of "n div 10"] by (subst dec.simps) simp
  qed
qed

lemma exact_half: "\<bar>m\<bar> \<le> 2 ^ 53 \<Longrightarrow> exact (of_int m / 2)"
proof -
  assume a: "\<bar>m\<bar> \<le> 2 ^ 53"
  have "\<bar>(of_int m :: rat)\<bar> \<le> 2 ^ 53"
    using a by (metis of_int_abs of_int_le_numeral_power_cancel_iff)
  then have "\<bar>(of_int m :: rat) / 2\<bar> \<le> 2 ^ 52" by simp
  then show ?thesis by (simp add: exact_def)
qed

lemma fround_half: "\<bar>m\<bar> \<le> 2 ^ 53 \<Longrightarrow> fround N (of_int m / 2) = Num (of_int m / 2)"
  by (simp add: fround_def exact_half)

lemma numStr_half: "\<bar>m\<bar> \<le> 2 ^ 53 \<Longrightarrow> numStr N (Num (of_int m / 2)) = halves m"
  by (simp add: numStr_def exact_half halves_def Let_def)

lemma to_primitive_convertible: "to_primitive N v = None \<longleftrightarrow> \<not> convertible v"
proof (induction v rule: convertible.induct)
  case (2 vs)
  have "those (map (to_primitive N) vs) = None \<longleftrightarrow> \<not> list_all convertible vs"
    using 2
  proof (induction vs)
    case Nil
    then show ?case by simp
  next
    case (Cons a vs)
    have a: "(to_primitive N a = None) = (\<not> convertible a)" using Cons.prems by simp
    have r: "those (map (to_primitive N) vs) = None \<longleftrightarrow> \<not> list_all convertible vs"
      using Cons.IH Cons.prems by simp
    show ?case using a r by (cases "to_primitive N a") (auto split: option.splits)
  qed
  then show ?case by simp
qed simp_all

lemma read_prop_None: "read_prop N img k = None \<longleftrightarrow> (\<exists>v. get_prop img k = Some v \<and> \<not> convertible v)"
  by (simp add: read_prop_def to_primitive_convertible split: option.splits)

lemma render_error: "renderFailureSvg N img reason = Inl e \<Longrightarrow> e = TypeError"
  by (auto simp: renderFailureSvg_def Let_def split: if_splits option.splits)

lemma render_ok_iff:
  "(\<exists>svg. renderFailureSvg N img reason = Inr svg) \<longleftrightarrow>
     img \<noteq> JNull \<and> (\<forall>k \<in> set image_keys. \<forall>v. get_prop img k = Some v \<longrightarrow> convertible v)"
proof -
  have n: "(\<forall>k \<in> set image_keys. \<forall>v. get_prop img k = Some v \<longrightarrow> convertible v)
        \<longleftrightarrow> (\<forall>k \<in> set image_keys. read_prop N img k \<noteq> None)"
    by (simp add: read_prop_None)
  show ?thesis
    unfolding n by (auto simp: renderFailureSvg_def image_keys_def Let_def split: option.splits)
qed

lemma length_replaceAll: "length (replaceAll c r s) \<le> max 1 (length r) * length s"
  by (induction s) (auto simp: replaceAll_Cons replaceAll_Nil)

lemma length_esc: "length (esc c) \<le> 6"
  by (simp add: esc_def)

lemma length_escapeXml: "length (escapeXml s) \<le> 6 * length s"
proof (induction s)
  case Nil
  then show ?case by (simp add: escapeXml_Nil)
next
  case (Cons c s)
  then show ?case using length_esc[of c] by (simp add: escapeXml_Cons)
qed

lemma length_split_sp: "length (split_sp s) \<le> Suc (length s)"
  by (induction s) (auto split: list.splits)

lemma length_wrap_loop:
  "wrap_loop m ws lines line = (lines', line') \<Longrightarrow> length lines' \<le> length lines + length ws"
proof (induction ws arbitrary: lines line)
  case Nil
  then show ?case by simp
next
  case (Cons w ws)
  show ?case
  proof (cases "length (line @ w) > m")
    case True
    then have "wrap_loop m ws (lines @ [trim line]) (w @ '' '') = (lines', line')"
      using Cons.prems by simp
    from Cons.IH[OF this] show ?thesis by simp
  next
    case False
    then have "wrap_loop m ws lines (line @ w @ '' '') = (lines', line')"
      using Cons.prems by simp
    from Cons.IH[OF this] show ?thesis by simp
  qed
qed

lemma length_wrapText: "length (wrapText t m) \<le> length t + 2"
proof -
  obtain lines' line' where r: "wrap_loop m (split_sp t) [] [] = (lines', line')"
    by (cases "wrap_loop m (split_sp t) [] []") auto
  have "length lines' \<le> length (split_sp t)" using length_wrap_loop[OF r] by simp
  then have "length lines' \<le> Suc (length t)" using length_split_sp[of t] by linarith
  then show ?thesis by (simp add: wrapText_def r)
qed

lemma lines_bound:
  assumes "length reason \<le> 2 ^ 30"
  shows "length (wrapText (escapeXml reason) 42) \<le> 2 ^ 33"
proof -
  have "length (wrapText (escapeXml reason) 42) \<le> 6 * length reason + 2"
    using length_wrapText[of "escapeXml reason" 42] length_escapeXml[of reason] by linarith
  also have "\<dots> \<le> 6 * 2 ^ 30 + 2" using assms by simp
  also have "\<dots> \<le> (2::nat) ^ 33" by simp
  finally show ?thesis .
qed

lemma num_int: "\<bar>w\<bar> \<le> 2 ^ 50 \<Longrightarrow> numStr N (Num (of_int w)) = halves (2 * w)"
  using numStr_half[of "2 * w" N] by simp

lemma sub_int:
  assumes "\<bar>w\<bar> \<le> 2 ^ 50"
  shows "numStr N (jsub N (Num (of_int w)) (Num 40)) = halves (2 * w - 80)"
proof -
  have e: "(of_int w :: rat) - 40 = of_int (2 * w - 80) / 2" by simp
  have b: "\<bar>2 * w - 80\<bar> \<le> 2 ^ 53" using assms by simp
  show ?thesis
    unfolding jsub.simps e fround_half[OF b] by (rule numStr_half[OF b])
qed

lemma half_int:
  assumes "\<bar>w\<bar> \<le> 2 ^ 50"
  shows "half N (Num (of_int w)) = Num (of_int w / 2)"
proof -
  have b: "\<bar>w\<bar> \<le> 2 ^ 53" using assms by simp
  show ?thesis unfolding half.simps by (rule fround_half[OF b])
qed

lemma half_int_text:
  assumes "\<bar>w\<bar> \<le> 2 ^ 50"
  shows "numStr N (half N (Num (of_int w))) = halves w"
proof -
  have b: "\<bar>w\<bar> \<le> 2 ^ 53" using assms by simp
  show ?thesis unfolding half_int[OF assms] by (rule numStr_half[OF b])
qed

lemma title_y:
  assumes "\<bar>h\<bar> \<le> 2 ^ 50"
  shows "numStr N (jsub N (half N (Num (of_int h))) (Num 60)) = halves (h - 120)"
proof -
  have e: "(of_int h :: rat) / 2 - 60 = of_int (h - 120) / 2" by simp
  have b: "\<bar>h - 120\<bar> \<le> 2 ^ 53" using assms by simp
  show ?thesis
    unfolding half_int[OF assms] jsub.simps e fround_half[OF b] by (rule numStr_half[OF b])
qed

lemma times26:
  assumes "n \<le> 2 ^ 33"
  shows "fround N (of_nat n * 26) = Num (of_int (52 * int n) / 2)"
proof -
  have e: "(of_nat n :: rat) * 26 = of_int (52 * int n) / 2" by simp
  have "int n \<le> 2 ^ 33" using assms by (metis of_nat_le_numeral_power_cancel_iff)
  then have b: "\<bar>52 * int n\<bar> \<le> 2 ^ 53" by simp
  show ?thesis unfolding e by (rule fround_half[OF b])
qed

lemma lineY_text:
  assumes "\<bar>h\<bar> \<le> 2 ^ 50" "n \<le> 2 ^ 33" "i \<le> n"
  shows "numStr N (lineY N (PNum (of_int h)) n i) = halves (h - 26 * int n + 52 * int i)"
proof -
  have n: "int n \<le> 2 ^ 33" using assms(2) by (metis of_nat_le_numeral_power_cancel_iff)
  have i: "int i \<le> 2 ^ 33" using assms(3) n by simp
  have i': "i \<le> 2 ^ 33" using assms(2,3) by simp
  have b1: "\<bar>26 * int n\<bar> \<le> 2 ^ 53" using n by simp
  have h1: "half N (Num (of_int (52 * int n) / 2)) = Num (of_int (26 * int n) / 2)"
  proof -
    have e: "(of_int (52 * int n) :: rat) / 2 / 2 = of_int (26 * int n) / 2" by simp
    show ?thesis unfolding half.simps e by (rule fround_half[OF b1])
  qed
  have b2: "\<bar>h - 26 * int n\<bar> \<le> 2 ^ 53" using assms(1) n by simp
  have e2: "(of_int h :: rat) / 2 - of_int (26 * int n) / 2 = of_int (h - 26 * int n) / 2"
    by (simp add: diff_divide_distrib)
  have s: "startY N (PNum (of_int h)) n = Num (of_int (h - 26 * int n) / 2)"
    unfolding startY_def to_number.simps half_int[OF assms(1)] times26[OF assms(2)] h1
      jsub.simps e2
    by (rule fround_half[OF b2])
  have b3: "\<bar>h - 26 * int n + 52 * int i\<bar> \<le> 2 ^ 53" using assms(1) n i by simp
  have e3: "(of_int (h - 26 * int n) :: rat) / 2 + of_int (52 * int i) / 2
              = of_int (h - 26 * int n + 52 * int i) / 2"
    by (simp add: add_divide_distrib)
  have "lineY N (PNum (of_int h)) n i = Num (of_int (h - 26 * int n + 52 * int i) / 2)"
    unfolding lineY_def s times26[OF i'] jadd.simps e3 by (rule fround_half[OF b3])
  then show ?thesis using numStr_half[OF b3] by simp
qed

lemma textSpans_text:
  assumes "\<bar>w\<bar> \<le> 2 ^ 50" "\<bar>h\<bar> \<le> 2 ^ 50" "length ls \<le> 2 ^ 33"
  shows \<open>textSpans N (PNum (of_int w)) (PNum (of_int h)) ls =
     concat (map (\<lambda>i. ''<text x="'' @ halves w @ ''" y="''
                         @ halves (h - 26 * int (length ls) + 52 * int i)
                         @ ''" text-anchor="middle">'' @ ls ! i @ ''</text>'')
               [0 ..< length ls])\<close>
proof -
  have \<open>map (textSpan N (PNum (of_int w)) (PNum (of_int h)) (length ls)) (zip ls [0 ..< length ls])
      = map (\<lambda>i. ''<text x="'' @ halves w @ ''" y="''
                         @ halves (h - 26 * int (length ls) + 52 * int i)
                         @ ''" text-anchor="middle">'' @ ls ! i @ ''</text>'')
               [0 ..< length ls]\<close>
    unfolding zip_upt_nth map_map
  proof (rule map_cong[OF refl])
    fix i assume "i \<in> set [0 ..< length ls]"
    then have i: "i \<le> length ls" by simp
    show \<open>(textSpan N (PNum (of_int w)) (PNum (of_int h)) (length ls) \<circ> (\<lambda>i. (ls ! i, i))) i
            = ''<text x="'' @ halves w @ ''" y="''
                         @ halves (h - 26 * int (length ls) + 52 * int i)
                         @ ''" text-anchor="middle">'' @ ls ! i @ ''</text>''\<close>
      by (simp del: half.simps add: textSpan_def half_int_text[OF assms(1)]
          lineY_text[OF assms(2,3) i])
  qed
  then show ?thesis by (simp add: textSpans_def)
qed

lemma render_explicit:
  assumes "get_prop img ''width'' = Some (JNum (of_int w))"
    "get_prop img ''height'' = Some (JNum (of_int h))"
    "get_prop img ''background'' = Some (JStr bg)"
    "get_prop img ''textColor'' = Some (JStr tc)"
    "get_prop img ''accentColor'' = Some (JStr ac)"
    "\<bar>w\<bar> \<le> 2 ^ 50" "\<bar>h\<bar> \<le> 2 ^ 50" "length reason \<le> 2 ^ 30"
  shows \<open>renderFailureSvg N img reason =
     Inr (''<?xml version="1.0" encoding="UTF-8"?>\<newline>''
       @ ''<svg xmlns="http://www.w3.org/2000/svg" width="'' @ halves (2 * w)
       @ ''" height="'' @ halves (2 * h) @ ''">\<newline>''
       @ ''  <rect width="100%" height="100%" fill="'' @ bg @ ''" />\<newline>''
       @ ''  <rect x="20" y="20" width="'' @ halves (2 * w - 80)
       @ ''" height="'' @ halves (2 * h - 80)
       @ ''" rx="24" fill="#2a2a2a" stroke="'' @ ac @ ''" stroke-width="3" />\<newline>''
       @ ''  <text x="'' @ halves w @ ''" y="'' @ halves (h - 120)
       @ ''" text-anchor="middle" fill="'' @ ac
       @ ''" font-family="Arial, sans-serif" font-size="26" font-weight="bold">FineImgur</text>\<newline>''
       @ ''  <g fill="'' @ tc @ ''" font-family="Arial, sans-serif" font-size="18">\<newline>''
       @ ''    ''
       @ concat (map (\<lambda>i. ''<text x="'' @ halves w @ ''" y="''
                         @ halves (h - 26 * int (length (wrapText (escapeXml reason) 42)) + 52 * int i)
                         @ ''" text-anchor="middle">'' @ wrapText (escapeXml reason) 42 ! i
                         @ ''</text>'')
               [0 ..< length (wrapText (escapeXml reason) 42)])
       @ ''\<newline>  </g>\<newline></svg>'')\<close>
proof -
  have n: "img \<noteq> JNull" using assms(1) by auto
  have p: "read_prop N img ''width'' = Some (PNum (of_int w))"
    "read_prop N img ''height'' = Some (PNum (of_int h))"
    "read_prop N img ''background'' = Some (PStr bg)"
    "read_prop N img ''textColor'' = Some (PStr tc)"
    "read_prop N img ''accentColor'' = Some (PStr ac)"
    using assms(1-5) by (simp_all add: read_prop_def)
  have r: "renderFailureSvg N img reason =
      Inr (svgProlog N (PNum (of_int w)) (PNum (of_int h)) (PStr bg) (PStr tc) (PStr ac)
           @ textSpans N (PNum (of_int w)) (PNum (of_int h)) (wrapText (escapeXml reason) 42)
           @ svgEpilog)"
    using n by (simp add: renderFailureSvg_def p Let_def)
  show ?thesis
    unfolding r textSpans_text[OF assms(6,7) lines_bound[OF assms(8)]]
    by (simp del: half.simps jsub.simps add: svgProlog_def svgEpilog_def num_int[OF assms(6)] num_int[OF assms(7)]
        sub_int[OF assms(6)] sub_int[OF assms(7)] half_int_text[OF assms(6)] title_y[OF assms(7)])
qed

lemma joined_snoc: "joined (g @ [w]) = joined g @ w @ '' ''"
  by (simp add: joined_def)

lemma packed_full: "packed m (length g) g"
  by (simp add: packed_def)

lemma packed_step:
  assumes "fits m g w" "packed m (Suc (length g)) (g @ w # x)"
  shows "packed m (length g) (g @ w # x)"
  unfolding packed_def
proof
  fix j assume "j \<in> set [length g ..< length (g @ w # x)]"
  then have j: "length g \<le> j \<and> j < length (g @ w # x)" by auto
  show "fits m (take j (g @ w # x)) ((g @ w # x) ! j)"
  proof (cases "j = length g")
    case True
    then show ?thesis using assms(1) by simp
  next
    case False
    then have "j \<in> set [Suc (length g) ..< length (g @ w # x)]" using j by auto
    then show ?thesis using assms(2) unfolding packed_def by blast
  qed
qed

lemma wrap_loop_groups:
  "wrap_loop m ws lines (joined g) = (lines', line') \<Longrightarrow>
   \<exists>gs. gs \<noteq> [] \<and> concat gs = g @ ws \<and> (\<exists>x. hd gs = g @ x) \<and>
        packed m (length g) (hd gs) \<and>
        (\<forall>g' \<in> set (tl gs). g' \<noteq> [] \<and> packed m 1 g') \<and>
        (\<forall>i. Suc i < length gs \<longrightarrow> \<not> fits m (gs ! i) (hd (gs ! Suc i))) \<and>
        lines' = lines @ map (trim \<circ> joined) (butlast gs) \<and> line' = joined (last gs)"
proof (induction ws arbitrary: g lines)
  case Nil
  show ?case
    using Nil by (intro exI[of _ "[g]"]) (simp add: packed_full)
next
  case (Cons w ws)
  show ?case
  proof (cases "fits m g w")
    case True
    then have "wrap_loop m ws lines (joined (g @ [w])) = (lines', line')"
      using Cons.prems by (simp add: fits_def joined_snoc)
    from Cons.IH[OF this] obtain gs x where gs:
      "gs \<noteq> []" "concat gs = (g @ [w]) @ ws" "hd gs = (g @ [w]) @ x"
      "packed m (length (g @ [w])) (hd gs)"
      "\<forall>g' \<in> set (tl gs). g' \<noteq> [] \<and> packed m 1 g'"
      "\<forall>i. Suc i < length gs \<longrightarrow> \<not> fits m (gs ! i) (hd (gs ! Suc i))"
      "lines' = lines @ map (trim \<circ> joined) (butlast gs)" "line' = joined (last gs)"
      by blast
    have h: "hd gs = g @ w # x" using gs(3) by simp
    have p: "packed m (length g) (hd gs)"
      unfolding h using gs(4) h by (intro packed_step[OF True]) simp
    show ?thesis
      apply (rule exI[of _ gs])
      using gs(1,2,5,6,7,8) h p by simp
  next
    case False
    then have "wrap_loop m ws (lines @ [trim (joined g)]) (joined [w]) = (lines', line')"
      using Cons.prems by (simp add: fits_def joined_def)
    from Cons.IH[OF this] obtain gs x where gs:
      "gs \<noteq> []" "concat gs = [w] @ ws" "hd gs = [w] @ x"
      "packed m (length [w]) (hd gs)"
      "\<forall>g' \<in> set (tl gs). g' \<noteq> [] \<and> packed m 1 g'"
      "\<forall>i. Suc i < length gs \<longrightarrow> \<not> fits m (gs ! i) (hd (gs ! Suc i))"
      "lines' = (lines @ [trim (joined g)]) @ map (trim \<circ> joined) (butlast gs)"
      "line' = joined (last gs)"
      by blast
    have all: "\<forall>g' \<in> set gs. g' \<noteq> [] \<and> packed m 1 g'"
    proof
      fix g' assume "g' \<in> set gs"
      then have "g' = hd gs \<or> g' \<in> set (tl gs)" using gs(1) by (cases gs) auto
      then show "g' \<noteq> [] \<and> packed m 1 g'" using gs(3,4,5) by auto
    qed
    have brk: "\<forall>i. Suc i < length (g # gs) \<longrightarrow> \<not> fits m ((g # gs) ! i) (hd ((g # gs) ! Suc i))"
    proof (intro allI impI)
      fix i assume i: "Suc i < length (g # gs)"
      show "\<not> fits m ((g # gs) ! i) (hd ((g # gs) ! Suc i))"
      proof (cases i)
        case 0
        have "gs ! 0 = hd gs" using gs(1) by (simp add: hd_conv_nth)
        then show ?thesis using 0 False gs(3) by simp
      next
        case (Suc k)
        then show ?thesis using gs(6) i by simp
      qed
    qed
    show ?thesis
      apply (rule exI[of _ "g # gs"])
      using gs(1,2,7,8) all brk by (simp add: packed_full)
  qed
qed

lemma wrapText_groups:
  "\<exists>gs. gs \<noteq> [] \<and> concat gs = split_sp t \<and> packed m 0 (hd gs) \<and>
        (\<forall>g \<in> set (tl gs). g \<noteq> [] \<and> packed m 1 g) \<and>
        (\<forall>i. Suc i < length gs \<longrightarrow> \<not> fits m (gs ! i) (hd (gs ! Suc i))) \<and>
        wrapText t m = map (trim \<circ> joined) (butlast gs)
                       @ (if trim (joined (last gs)) = [] then [] else [trim (joined (last gs))])"
proof -
  obtain lines' line' where r: "wrap_loop m (split_sp t) [] (joined []) = (lines', line')"
    by (cases "wrap_loop m (split_sp t) [] (joined [])") auto
  from wrap_loop_groups[OF r] obtain gs where gs:
    "gs \<noteq> []" "concat gs = split_sp t" "packed m 0 (hd gs)"
    "\<forall>g' \<in> set (tl gs). g' \<noteq> [] \<and> packed m 1 g'"
    "\<forall>i. Suc i < length gs \<longrightarrow> \<not> fits m (gs ! i) (hd (gs ! Suc i))"
    "lines' = map (trim \<circ> joined) (butlast gs)" "line' = joined (last gs)"
    by auto
  have "wrapText t m = map (trim \<circ> joined) (butlast gs)
                       @ (if trim (joined (last gs)) = [] then [] else [trim (joined (last gs))])"
    using r gs(6,7) by (simp add: wrapText_def joined_def)
  then show ?thesis using gs(1-5) by blast
qed

text \<open>
  Claim C8, as amended. The renderer is a function of the reason and of the value of
  \<open>config.failureImage\<close>. It raises nothing but \<open>TypeError\<close>, and it returns a document
  exactly when that value is not \<open>null\<close> and none of the five values it reads is an
  object with a \<open>toString\<close> key of its own, or an array that holds one. When the width and
  the height are integers of magnitude at most \<open>2^50\<close>, the colours are strings and the
  reason has at most \<open>2^30\<close> code units, as every string of the runtime has, the document
  is the text below: the canvas has the configured size and colours, the inner rectangle
  is 40 smaller, and line \<open>i\<close> of \<open>n\<close> is drawn at \<open>height / 2 - 13 n + 26 i\<close>, which
  centres the block of \<open>n\<close> lines of height 26 on half the height. The reason is escaped
  character by character; every line is the escape of a string and holds none of \<open><\<close>,
  \<open>>\<close>, double or single quote. The lines are the greedy wrap of the words at 42
  columns: the words are cut into consecutive groups, every word of a group after its
  first fits behind the words before it, the first word of the next group does not, and
  a line is the trimmed text of a group, the last one left out when it is blank. A word
  longer than 42 characters stays whole, and when it is the first word the first group
  is empty. The empty reason has no line. \<open>dec\<close> prints a natural number in decimal,
  without a leading zero.
\<close>

theorem renderFailureSvg_document:
  \<open>(\<forall>e. renderFailureSvg N img reason = Inl e \<longrightarrow> e = TypeError) \<and>
   ((\<exists>svg. renderFailureSvg N img reason = Inr svg) \<longleftrightarrow>
      img \<noteq> JNull \<and>
      (\<forall>k \<in> set image_keys. \<forall>v. get_prop img k = Some v \<longrightarrow> convertible v)) \<and>
   (\<forall>w h bg tc ac.
      get_prop img ''width'' = Some (JNum (of_int w)) \<and>
      get_prop img ''height'' = Some (JNum (of_int h)) \<and>
      get_prop img ''background'' = Some (JStr bg) \<and>
      get_prop img ''textColor'' = Some (JStr tc) \<and>
      get_prop img ''accentColor'' = Some (JStr ac) \<and>
      \<bar>w\<bar> \<le> 2 ^ 50 \<and> \<bar>h\<bar> \<le> 2 ^ 50 \<and> length reason \<le> 2 ^ 30 \<longrightarrow>
      renderFailureSvg N img reason =
        Inr (''<?xml version="1.0" encoding="UTF-8"?>\<newline>''
          @ ''<svg xmlns="http://www.w3.org/2000/svg" width="'' @ halves (2 * w)
          @ ''" height="'' @ halves (2 * h) @ ''">\<newline>''
          @ ''  <rect width="100%" height="100%" fill="'' @ bg @ ''" />\<newline>''
          @ ''  <rect x="20" y="20" width="'' @ halves (2 * w - 80)
          @ ''" height="'' @ halves (2 * h - 80)
          @ ''" rx="24" fill="#2a2a2a" stroke="'' @ ac @ ''" stroke-width="3" />\<newline>''
          @ ''  <text x="'' @ halves w @ ''" y="'' @ halves (h - 120)
          @ ''" text-anchor="middle" fill="'' @ ac
          @ ''" font-family="Arial, sans-serif" font-size="26" font-weight="bold">FineImgur</text>\<newline>''
          @ ''  <g fill="'' @ tc @ ''" font-family="Arial, sans-serif" font-size="18">\<newline>''
          @ ''    ''
          @ concat (map (\<lambda>i. ''<text x="'' @ halves w @ ''" y="''
                            @ halves (h - 26 * int (length (wrapText (escapeXml reason) 42)) + 52 * int i)
                            @ ''" text-anchor="middle">'' @ wrapText (escapeXml reason) 42 ! i
                            @ ''</text>'')
                  [0 ..< length (wrapText (escapeXml reason) 42)])
          @ ''\<newline>  </g>\<newline></svg>'')) \<and>
   escapeXml reason = concat (map esc reason) \<and>
   (\<forall>l \<in> set (wrapText (escapeXml reason) 42).
      (\<exists>u. l = escapeXml u) \<and>
      set l \<inter> {CHR ''<'', CHR ''>'', CHR 0x22, CHR 0x27} = {} \<and>
      (length l \<le> 42 \<or> CHR '' '' \<notin> set l)) \<and>
   (\<exists>gs. gs \<noteq> [] \<and> concat gs = split_sp (escapeXml reason) \<and> packed 42 0 (hd gs) \<and>
      (\<forall>g \<in> set (tl gs). g \<noteq> [] \<and> packed 42 1 g) \<and>
      (\<forall>i. Suc i < length gs \<longrightarrow> \<not> fits 42 (gs ! i) (hd (gs ! Suc i))) \<and>
      wrapText (escapeXml reason) 42 =
        map (trim \<circ> joined) (butlast gs)
        @ (if trim (joined (last gs)) = [] then [] else [trim (joined (last gs))])) \<and>
   wrapText (escapeXml []) 42 = [] \<and>
   (\<forall>n. digits_value (dec n) = n \<and> dec n \<noteq> [] \<and> set (dec n) \<subseteq> set ''0123456789'' \<and>
        (0 < n \<longrightarrow> hd (dec n) \<noteq> CHR ''0''))\<close>
proof (intro conjI)
  show "\<forall>e. renderFailureSvg N img reason = Inl e \<longrightarrow> e = TypeError"
    using render_error by blast
  show "(\<exists>svg. renderFailureSvg N img reason = Inr svg) \<longleftrightarrow>
      img \<noteq> JNull \<and>
      (\<forall>k \<in> set image_keys. \<forall>v. get_prop img k = Some v \<longrightarrow> convertible v)"
    by (rule render_ok_iff)
  show "escapeXml reason = concat (map esc reason)" by (rule escapeXml_concat)
  show "\<forall>l \<in> set (wrapText (escapeXml reason) 42).
      (\<exists>u. l = escapeXml u) \<and>
      set l \<inter> {CHR ''<'', CHR ''>'', CHR 0x22, CHR 0x27} = {} \<and>
      (length l \<le> 42 \<or> CHR '' '' \<notin> set l)"
  proof (intro ballI conjI)
    fix l assume l: "l \<in> set (wrapText (escapeXml reason) 42)"
    show e: "\<exists>u. l = escapeXml u" using l by (rule wrapText_escaped)
    show "set l \<inter> {CHR ''<'', CHR ''>'', CHR 0x22, CHR 0x27} = {}"
      using e escapeXml_no_markup by blast
    show "length l \<le> 42 \<or> CHR '' '' \<notin> set l" using l by (rule wrapText_width)
  qed
  show "\<exists>gs. gs \<noteq> [] \<and> concat gs = split_sp (escapeXml reason) \<and> packed 42 0 (hd gs) \<and>
      (\<forall>g \<in> set (tl gs). g \<noteq> [] \<and> packed 42 1 g) \<and>
      (\<forall>i. Suc i < length gs \<longrightarrow> \<not> fits 42 (gs ! i) (hd (gs ! Suc i))) \<and>
      wrapText (escapeXml reason) 42 =
        map (trim \<circ> joined) (butlast gs)
        @ (if trim (joined (last gs)) = [] then [] else [trim (joined (last gs))])"
    by (rule wrapText_groups)
  show "wrapText (escapeXml []) 42 = []" by (rule wrapText_empty)
  show "\<forall>n. digits_value (dec n) = n \<and> dec n \<noteq> [] \<and> set (dec n) \<subseteq> set ''0123456789'' \<and>
        (0 < n \<longrightarrow> hd (dec n) \<noteq> CHR ''0'')"
    using dec_value dec_not_Nil dec_digits dec_no_leading_zero by blast
qed (rule allI impI | erule conjE | rule render_explicit, assumption+)+

lemma demo_wrap:
  "wrapText (escapeXml demo_reason) 42
     = [''&lt;a href=&quot;x&quot;&gt;Tom &amp;'', ''Jerry&lt;/a&gt;'']"
  by code_simp

lemma demo_halves:
  "halves 1280 = ''640''" "halves 720 = ''360''" "halves 1200 = ''600''" "halves 640 = ''320''"
  "halves 240 = ''120''" "halves 308 = ''154''" "halves 360 = ''180''"
  by code_simp+

lemma default_image:
  "map_of DEFAULT_CONFIG ''failureImage'' = Some (image_json (failureImage default_config))"
  by (simp add: DEFAULT_CONFIG_def image_json_def default_config_def)

theorem renderFailureSvg_document_witness:
  \<open>get_prop (image_json (failureImage default_config)) ''width'' = Some (JNum (of_int 640)) \<and>
   get_prop (image_json (failureImage default_config)) ''height'' = Some (JNum (of_int 360)) \<and>
   get_prop (image_json (failureImage default_config)) ''background'' = Some (JStr ''#1d1d1d'') \<and>
   get_prop (image_json (failureImage default_config)) ''textColor'' = Some (JStr ''#ffffff'') \<and>
   get_prop (image_json (failureImage default_config)) ''accentColor'' = Some (JStr ''#ff4d4d'') \<and>
   \<bar>640 :: int\<bar> \<le> 2 ^ 50 \<and> \<bar>360 :: int\<bar> \<le> 2 ^ 50 \<and> length demo_reason \<le> 2 ^ 30 \<and>
   map_of DEFAULT_CONFIG ''failureImage'' = Some (image_json (failureImage default_config)) \<and>
   wrapText (escapeXml demo_reason) 42
     = [''&lt;a href=&quot;x&quot;&gt;Tom &amp;'', ''Jerry&lt;/a&gt;''] \<and>
   renderFailureSvg demo_node (image_json (failureImage default_config)) demo_reason =
     Inr (''<?xml version="1.0" encoding="UTF-8"?>\<newline>''
       @ ''<svg xmlns="http://www.w3.org/2000/svg" width="640" height="360">\<newline>''
       @ ''  <rect width="100%" height="100%" fill="#1d1d1d" />\<newline>''
       @ ''  <rect x="20" y="20" width="600" height="320" rx="24" fill="#2a2a2a" stroke="#ff4d4d" stroke-width="3" />\<newline>''
       @ ''  <text x="320" y="120" text-anchor="middle" fill="#ff4d4d" font-family="Arial, sans-serif" font-size="26" font-weight="bold">FineImgur</text>\<newline>''
       @ ''  <g fill="#ffffff" font-family="Arial, sans-serif" font-size="18">\<newline>''
       @ ''    <text x="320" y="154" text-anchor="middle">&lt;a href=&quot;x&quot;&gt;Tom &amp;</text>''
       @ ''<text x="320" y="180" text-anchor="middle">Jerry&lt;/a&gt;</text>''
       @ ''\<newline>  </g>\<newline></svg>'')\<close>
proof -
  have g: "get_prop (image_json (failureImage default_config)) ''width'' = Some (JNum (of_int 640))"
    "get_prop (image_json (failureImage default_config)) ''height'' = Some (JNum (of_int 360))"
    "get_prop (image_json (failureImage default_config)) ''background'' = Some (JStr ''#1d1d1d'')"
    "get_prop (image_json (failureImage default_config)) ''textColor'' = Some (JStr ''#ffffff'')"
    "get_prop (image_json (failureImage default_config)) ''accentColor'' = Some (JStr ''#ff4d4d'')"
    by (simp_all add: image_json_def default_config_def)
  have b: "\<bar>640 :: int\<bar> \<le> 2 ^ 50" "\<bar>360 :: int\<bar> \<le> 2 ^ 50" "length demo_reason \<le> 2 ^ 30"
    by (simp_all add: demo_reason_def)
  have ante: "get_prop (image_json (failureImage default_config)) ''width'' = Some (JNum (of_int 640)) \<and>
      get_prop (image_json (failureImage default_config)) ''height'' = Some (JNum (of_int 360)) \<and>
      get_prop (image_json (failureImage default_config)) ''background'' = Some (JStr ''#1d1d1d'') \<and>
      get_prop (image_json (failureImage default_config)) ''textColor'' = Some (JStr ''#ffffff'') \<and>
      get_prop (image_json (failureImage default_config)) ''accentColor'' = Some (JStr ''#ff4d4d'') \<and>
      \<bar>640 :: int\<bar> \<le> 2 ^ 50 \<and> \<bar>360 :: int\<bar> \<le> 2 ^ 50 \<and> length demo_reason \<le> 2 ^ 30"
    using g b by (simp only: simp_thms)
  note T = renderFailureSvg_document[where N = demo_node
      and img = "image_json (failureImage default_config)" and reason = demo_reason]
  have u: "[0 ..< 2] = [0, Suc 0]" by (simp add: upt_rec)
  have r: \<open>renderFailureSvg demo_node (image_json (failureImage default_config)) demo_reason =
     Inr (''<?xml version="1.0" encoding="UTF-8"?>\<newline>''
       @ ''<svg xmlns="http://www.w3.org/2000/svg" width="640" height="360">\<newline>''
       @ ''  <rect width="100%" height="100%" fill="#1d1d1d" />\<newline>''
       @ ''  <rect x="20" y="20" width="600" height="320" rx="24" fill="#2a2a2a" stroke="#ff4d4d" stroke-width="3" />\<newline>''
       @ ''  <text x="320" y="120" text-anchor="middle" fill="#ff4d4d" font-family="Arial, sans-serif" font-size="26" font-weight="bold">FineImgur</text>\<newline>''
       @ ''  <g fill="#ffffff" font-family="Arial, sans-serif" font-size="18">\<newline>''
       @ ''    <text x="320" y="154" text-anchor="middle">&lt;a href=&quot;x&quot;&gt;Tom &amp;</text>''
       @ ''<text x="320" y="180" text-anchor="middle">Jerry&lt;/a&gt;</text>''
       @ ''\<newline>  </g>\<newline></svg>'')\<close>
    using T[THEN conjunct2, THEN conjunct2, THEN conjunct1, rule_format, OF ante]
    unfolding demo_wrap by (simp add: u demo_halves)
  show ?thesis
    using g b default_image demo_wrap r by (simp only: simp_thms)
qed

lemma null_config:
  "map_of (loadConfig null_node (Some null_config_text)) ''failureImage'' = Some JNull"
  by (simp add: loadConfig_def null_node_def spread_def DEFAULT_CONFIG_def put_entry_def)

lemma partial_config:
  "map_of (loadConfig demo_node (Some partial_config_text)) ''failureImage''
     = Some (JObj [(''width'', JNum 800)])"
  by (simp add: loadConfig_def demo_node_def spread_def DEFAULT_CONFIG_def put_entry_def)

lemma long_word_wrap: "wrapText (escapeXml long_word) 42 = [[], long_word]"
  by code_simp

lemma partial_render:
  \<open>renderFailureSvg demo_node (JObj [(''width'', JNum 800)]) [] =
     Inr (''<?xml version="1.0" encoding="UTF-8"?>\<newline>''
       @ ''<svg xmlns="http://www.w3.org/2000/svg" width="800" height="undefined">\<newline>''
       @ ''  <rect width="100%" height="100%" fill="undefined" />\<newline>''
       @ ''  <rect x="20" y="20" width="760" height="NaN" rx="24" fill="#2a2a2a" stroke="undefined" stroke-width="3" />\<newline>''
       @ ''  <text x="400" y="NaN" text-anchor="middle" fill="undefined" font-family="Arial, sans-serif" font-size="26" font-weight="bold">FineImgur</text>\<newline>''
       @ ''  <g fill="undefined" font-family="Arial, sans-serif" font-size="18">\<newline>''
       @ ''    ''
       @ ''\<newline>  </g>\<newline></svg>'')\<close>
  by code_simp

text \<open>
  Claim C8 as stated has no error condition and the configured geometry for every
  configuration. A configuration file that sets \<open>failureImage\<close> to \<open>null\<close> loads, and the
  renderer then raises \<open>TypeError\<close> for every reason; the file that gives only a width
  loads too, and the document then has \<open>undefined\<close> for the height and the colours and
  \<open>NaN\<close> for what is computed from the height; and a word of 51 characters is not
  wrapped: it follows an empty line.
\<close>

theorem renderFailureSvg_counterexample:
  \<open>map_of (loadConfig null_node (Some null_config_text)) ''failureImage'' = Some JNull \<and>
   renderFailureSvg null_node JNull [] = Inl TypeError \<and>
   map_of (loadConfig demo_node (Some partial_config_text)) ''failureImage''
     = Some (JObj [(''width'', JNum 800)]) \<and>
   renderFailureSvg demo_node (JObj [(''width'', JNum 800)]) [] =
     Inr (''<?xml version="1.0" encoding="UTF-8"?>\<newline>''
       @ ''<svg xmlns="http://www.w3.org/2000/svg" width="800" height="undefined">\<newline>''
       @ ''  <rect width="100%" height="100%" fill="undefined" />\<newline>''
       @ ''  <rect x="20" y="20" width="760" height="NaN" rx="24" fill="#2a2a2a" stroke="undefined" stroke-width="3" />\<newline>''
       @ ''  <text x="400" y="NaN" text-anchor="middle" fill="undefined" font-family="Arial, sans-serif" font-size="26" font-weight="bold">FineImgur</text>\<newline>''
       @ ''  <g fill="undefined" font-family="Arial, sans-serif" font-size="18">\<newline>''
       @ ''    ''
       @ ''\<newline>  </g>\<newline></svg>'') \<and>
   length long_word = 51 \<and>
   wrapText (escapeXml long_word) 42 = [[], long_word]\<close>
proof -
  have n: "renderFailureSvg null_node JNull [] = Inl TypeError"
    by (simp add: renderFailureSvg_def)
  have l: "length long_word = 51" by (simp add: long_word_def)
  show ?thesis
    using null_config n partial_config partial_render l long_word_wrap by (simp only: simp_thms)
qed

lemma placeholder_delivered:
  assumes "placeholder_reply N cfg reason code st'" "has_body code"
  shows "delivered st' = Inr (svg_of N cfg reason) \<and> svg_of N cfg reason \<noteq> []"
  using assms svg_of_not_Nil
  by (simp add: placeholder_reply_def delivered_def body_allowed_def)

lemma has_body_502 [simp]: "has_body 502"
  by (simp add: has_body_def)

lemma on_response_zero:
  assumes "resHead st = None" "statusCode up = 0"
  shows "on_response N cfg cf up st =
           Inr (st\<lparr>resHead := Some (502,
                    [(''Content-Type'', JStr ''image/svg+xml; charset=utf-8''),
                     (''Cache-Control'', JStr ''no-store''),
                     (''Content-Length'', JNum (of_nat (byteLength (svg_of N cfg
                        (''Imgur responded with status '' @ dec 0 @ ''.'')))))]),
                  resBody := Some (Text (svg_of N cfg
                        (''Imgur responded with status '' @ dec 0 @ ''.''))),
                  proxyRes := Draining\<rparr>)"
  using assms by (simp add: on_response_def sendFailure_result resume_def)

text \<open>
  Claim C6, as amended. On a response that has not been started, each failure class of
  the relay (invalid request URL, upstream status other than 200, upstream type that is
  not an image, declared oversize, oversize found while streaming, upstream stream
  error, request error) answers through \<open>sendFailure\<close>: the head carries the status (413
  unless the upstream status is mirrored), \<open>Content-Type: image/svg+xml; charset=utf-8\<close>,
  \<open>Cache-Control: no-store\<close> and the byte length of the placeholder. An upstream status
  from 100 to 999 other than 200 is the response status, and its decimal digits stand in
  the placeholder; an upstream status of 0 is answered with 502. The caller receives the
  placeholder, which is never empty, whenever the status admits a body: for a mirrored
  204, 304 or 1xx the head is sent as described and the body is dropped. The two
  listeners that first remove the staging file reply when that file is absent or can be
  deleted.
\<close>

theorem failure_paths_reply_placeholder:
  assumes fresh: "resHead st = None"
  shows
   "(URL_parse N url (imgurBaseUrl cfg) = None \<and> url \<noteq> ''/'' \<and> url \<noteq> [] \<longrightarrow>
       (\<exists>st'. proxyRequest N cfg ''GET'' url st = Inr (Replied st') \<and>
              placeholder_reply N cfg ''Invalid request URL.'' 413 st')) \<and>
    (statusCode up \<noteq> 200 \<and> 100 \<le> statusCode up \<and> statusCode up \<le> 999 \<longrightarrow>
       (\<exists>st'. on_response N cfg cf up st = Inr st' \<and>
              resHead st' = Some (statusCode up,
                [(''Content-Type'', JStr ''image/svg+xml; charset=utf-8''),
                 (''Cache-Control'', JStr ''no-store''),
                 (''Content-Length'', JNum (of_nat (byteLength (svg_of N cfg
                    (''Imgur responded with status '' @ dec (statusCode up) @ ''.'')))))]) \<and>
              delivered st' =
                Inr (if has_body (statusCode up)
                     then svg_of N cfg
                            (''Imgur responded with status '' @ dec (statusCode up) @ ''.'')
                     else []) \<and>
              (has_body (statusCode up) \<longrightarrow>
                 placeholder_reply N cfg
                   (''Imgur responded with status '' @ dec (statusCode up) @ ''.'')
                   (statusCode up) st') \<and>
              (\<exists>a b. svg_of N cfg (''Imgur responded with status '' @ dec (statusCode up) @ ''.'')
                       = a @ dec (statusCode up) @ b))) \<and>
    (statusCode up = 0 \<longrightarrow>
       (\<exists>st'. on_response N cfg cf up st = Inr st' \<and>
              placeholder_reply N cfg (''Imgur responded with status '' @ dec 0 @ ''.'') 502 st')) \<and>
    (statusCode up = 200 \<and> \<not> startsWith (contentTypeOf up) ''image/'' \<longrightarrow>
       (\<exists>st'. on_response N cfg cf up st = Inr st' \<and>
              placeholder_reply N cfg ''Imgur response was not an image.'' 413 st')) \<and>
    (statusCode up = 200 \<and> startsWith (contentTypeOf up) ''image/'' \<and> declared_oversize N cfg up \<longrightarrow>
       (\<exists>st'. on_response N cfg cf up st = Inr st' \<and> placeholder_reply N cfg oversize_text 413 st')) \<and>
    (\<not> aborted st \<and> deletable (tempFileFor cf) st \<and>
     downloaded st + length chunk > maxDownloadBytes cfg \<longrightarrow>
       (\<exists>st'. on_data N cfg cf chunk st = Inr st' \<and> placeholder_reply N cfg oversize_text 413 st')) \<and>
    (\<not> aborted st \<and> deletable (tempFileFor cf) st \<longrightarrow>
       (\<exists>st'. on_error N cfg cf msg st = Inr st' \<and>
              placeholder_reply N cfg (''Proxy error: '' @ msg) 413 st')) \<and>
    (\<exists>st'. on_request_error N cfg msg st = Inr st' \<and>
           placeholder_reply N cfg (''Request failed: '' @ msg) 413 st') \<and>
    (\<forall>reason code st'. placeholder_reply N cfg reason code st' \<and> has_body code \<longrightarrow>
       delivered st' = Inr (svg_of N cfg reason) \<and> svg_of N cfg reason \<noteq> [])"
proof (intro conjI impI allI)
  assume "URL_parse N url (imgurBaseUrl cfg) = None \<and> url \<noteq> ''/'' \<and> url \<noteq> []"
  then show "\<exists>st'. proxyRequest N cfg ''GET'' url st = Inr (Replied st') \<and>
              placeholder_reply N cfg ''Invalid request URL.'' 413 st'"
    using invalid_url_reply[OF fresh, of N url cfg] by (simp add: placeholder_reply_def)
next
  assume a: "statusCode up \<noteq> 200 \<and> 100 \<le> statusCode up \<and> statusCode up \<le> 999"
  then have "statusCode up < 1000" by simp
  from status_in_body[OF this, of N cfg] a
  show "\<exists>st'. on_response N cfg cf up st = Inr st' \<and>
              resHead st' = Some (statusCode up,
                [(''Content-Type'', JStr ''image/svg+xml; charset=utf-8''),
                 (''Cache-Control'', JStr ''no-store''),
                 (''Content-Length'', JNum (of_nat (byteLength (svg_of N cfg
                    (''Imgur responded with status '' @ dec (statusCode up) @ ''.'')))))]) \<and>
              delivered st' =
                Inr (if has_body (statusCode up)
                     then svg_of N cfg
                            (''Imgur responded with status '' @ dec (statusCode up) @ ''.'')
                     else []) \<and>
              (has_body (statusCode up) \<longrightarrow>
                 placeholder_reply N cfg
                   (''Imgur responded with status '' @ dec (statusCode up) @ ''.'')
                   (statusCode up) st') \<and>
              (\<exists>a b. svg_of N cfg (''Imgur responded with status '' @ dec (statusCode up) @ ''.'')
                       = a @ dec (statusCode up) @ b)"
    by (simp add: on_response_reject(1)[OF fresh] placeholder_reply_def delivered_def
        body_allowed_def)
next
  assume "statusCode up = 0"
  then show "\<exists>st'. on_response N cfg cf up st = Inr st' \<and>
              placeholder_reply N cfg (''Imgur responded with status '' @ dec 0 @ ''.'') 502 st'"
    by (simp add: on_response_zero[OF fresh] placeholder_reply_def)
next
  assume "statusCode up = 200 \<and> \<not> startsWith (contentTypeOf up) ''image/''"
  then show "\<exists>st'. on_response N cfg cf up st = Inr st' \<and>
              placeholder_reply N cfg ''Imgur response was not an image.'' 413 st'"
    by (simp add: on_response_reject(2)[OF fresh] placeholder_reply_def)
next
  assume "statusCode up = 200 \<and> startsWith (contentTypeOf up) ''image/'' \<and> declared_oversize N cfg up"
  then show "\<exists>st'. on_response N cfg cf up st = Inr st' \<and> placeholder_reply N cfg oversize_text 413 st'"
    by (simp add: on_response_reject(3)[OF fresh] placeholder_reply_def)
next
  assume "\<not> aborted st \<and> deletable (tempFileFor cf) st \<and>
     downloaded st + length chunk > maxDownloadBytes cfg"
  then show "\<exists>st'. on_data N cfg cf chunk st = Inr st' \<and> placeholder_reply N cfg oversize_text 413 st'"
    by (simp add: on_data_abort[OF fresh] placeholder_reply_def)
next
  assume "\<not> aborted st \<and> deletable (tempFileFor cf) st"
  then show "\<exists>st'. on_error N cfg cf msg st = Inr st' \<and>
              placeholder_reply N cfg (''Proxy error: '' @ msg) 413 st'"
    by (simp add: on_error_result[OF fresh] placeholder_reply_def)
next
  show "\<exists>st'. on_request_error N cfg msg st = Inr st' \<and>
           placeholder_reply N cfg (''Request failed: '' @ msg) 413 st'"
    by (simp add: on_request_error_result[OF fresh] placeholder_reply_def)
next
  fix reason code st'
  assume "placeholder_reply N cfg reason code st' \<and> has_body code"
  then show "delivered st' = Inr (svg_of N cfg reason)"
    and "svg_of N cfg reason \<noteq> []"
    using placeholder_delivered by blast+
qed

theorem failure_paths_reply_placeholder_witness:
  "resHead (fresh [] 0) = None \<and>
   statusCode not_found = 404 \<and>
   (\<exists>st'. on_response demo_node default_config ''k'' not_found (fresh [] 0) = Inr st' \<and>
          placeholder_reply demo_node default_config ''Imgur responded with status 404.'' 404 st' \<and>
          delivered st' = Inr (svg_of demo_node default_config ''Imgur responded with status 404.'') \<and>
          (\<exists>a b. svg_of demo_node default_config ''Imgur responded with status 404.''
                   = a @ ''404'' @ b)) \<and>
   URL_parse demo_node ''//['' (imgurBaseUrl default_config) = None \<and>
   (\<exists>st'. proxyRequest demo_node default_config ''GET'' ''//['' (fresh [] 0) = Inr (Replied st') \<and>
          placeholder_reply demo_node default_config ''Invalid request URL.'' 413 st')"
proof -
  have f: "resHead (fresh [] 0) = None" by (simp add: fresh_def)
  have s: "statusCode not_found = 404" by (simp add: not_found_def)
  have u: "URL_parse demo_node ''//['' (imgurBaseUrl default_config) = None"
    by (simp add: demo_node_def)
  have d: "dec 404 = ''404''" by (simp add: dec.simps)
  have h: "has_body 404" by (simp add: has_body_def)
  note T = failure_paths_reply_placeholder[OF f, where N = demo_node and url = "''//[''"
      and cfg = default_config and up = not_found and cf = "''k''" and chunk = "[]" and msg = "[]"]
  have r1: "\<exists>st'. proxyRequest demo_node default_config ''GET'' ''//['' (fresh [] 0) = Inr (Replied st') \<and>
          placeholder_reply demo_node default_config ''Invalid request URL.'' 413 st'"
    using T u by simp
  have ante: "statusCode not_found \<noteq> 200 \<and> 100 \<le> statusCode not_found \<and> statusCode not_found \<le> 999"
    by (simp add: s)
  have t: "''Imgur responded with status '' @ dec (statusCode not_found) @ ''.''
             = ''Imgur responded with status 404.''"
    by (simp add: s d)
  from T[THEN conjunct2, THEN conjunct1, rule_format, OF ante]
  obtain st' where st': "on_response demo_node default_config ''k'' not_found (fresh [] 0) = Inr st'"
    "delivered st' =
       Inr (if has_body (statusCode not_found)
            then svg_of demo_node default_config
                   (''Imgur responded with status '' @ dec (statusCode not_found) @ ''.'')
            else [])"
    "has_body (statusCode not_found) \<longrightarrow>
       placeholder_reply demo_node default_config
         (''Imgur responded with status '' @ dec (statusCode not_found) @ ''.'')
         (statusCode not_found) st'"
    "\<exists>a b. svg_of demo_node default_config
             (''Imgur responded with status '' @ dec (statusCode not_found) @ ''.'')
            = a @ dec (statusCode not_found) @ b"
    by blast
  have r2: "\<exists>st'. on_response demo_node default_config ''k'' not_found (fresh [] 0) = Inr st' \<and>
          placeholder_reply demo_node default_config ''Imgur responded with status 404.'' 404 st' \<and>
          delivered st' = Inr (svg_of demo_node default_config ''Imgur responded with status 404.'') \<and>
          (\<exists>a b. svg_of demo_node default_config ''Imgur responded with status 404.''
                   = a @ ''404'' @ b)"
    using st' h unfolding t unfolding s d by (intro exI[of _ st']) simp
  show ?thesis
    using f s u r1 r2 by (simp only: simp_thms)
qed

text \<open>
  Claim C6 as stated has a placeholder in the body on every failure path. An upstream
  answer of 204 is mirrored: the head goes out with status 204 and the length of the
  placeholder, and the caller receives no body.
\<close>

theorem mirrored_no_content_counterexample:
  "statusCode no_content \<noteq> 200 \<and>
   (case on_response demo_node default_config ''k'' no_content (fresh [] 0) of
      Inl e \<Rightarrow> None
    | Inr s \<Rightarrow> Some (map_option fst (resHead s), resBody s, delivered s))
     = Some (Some 204, Some (Text []), Inr [])"
proof -
  have f: "resHead (fresh [] 0) = None" by (simp add: fresh_def)
  have s: "statusCode no_content = 204" by (simp add: no_content_def)
  show ?thesis
    unfolding on_response_reject(1)[OF f, of no_content, unfolded s, simplified]
    by (simp add: s delivered_def body_allowed_def has_body_def)
qed

subsection \<open>Declared oversize\<close>

lemma run_append:
  "run N cfg cf ct (evs @ evs') st =
     (case run N cfg cf ct evs st of Inl e \<Rightarrow> Inl e | Inr st1 \<Rightarrow> run N cfg cf ct evs' st1)"
  by (induction evs arbitrary: st) (auto split: sum.splits)

lemma run_draining:
  assumes "proxyRes st = Draining"
  shows "\<exists>t. run N cfg cf ct (body_events tcs) st =
           Inr (st\<lparr>clock := t, consumed := consumed st + bytes_of tcs\<rparr>)"
  using assms
proof (induction tcs arbitrary: st)
  case Nil
  have "st\<lparr>clock := clock st, consumed := consumed st\<rparr> = st" by simp
  then show ?case
    by (auto simp: body_events_def bytes_of_def intro: exI[of _ "clock st"])
next
  case (Cons tc tcs)
  obtain t c where tc: "tc = (t, c)" by (cases tc)
  define st1 where "st1 = st\<lparr>clock := t, consumed := consumed st + length c\<rparr>"
  have d: "deliver N cfg cf ct (t, Data c) st = Inr st1"
    using Cons.prems by (simp add: deliver_def st1_def)
  have "proxyRes st1 = Draining" using Cons.prems by (simp add: st1_def)
  from Cons.IH[OF this] obtain t' where
    "run N cfg cf ct (body_events tcs) st1 =
       Inr (st1\<lparr>clock := t', consumed := consumed st1 + bytes_of tcs\<rparr>)" by blast
  then have "run N cfg cf ct (body_events (tc # tcs)) st =
       Inr (st\<lparr>clock := t', consumed := consumed st + bytes_of (tc # tcs)\<rparr>)"
    using d by (simp add: tc body_events_def bytes_of_def st1_def add.assoc)
  then show ?case by blast
qed

lemma run_draining_end:
  assumes "proxyRes st = Draining"
  shows "run N cfg cf ct (body_events tcs @ [(te, End)]) st =
           Inr (st\<lparr>clock := te, consumed := consumed st + bytes_of tcs\<rparr>)"
proof -
  obtain t where "run N cfg cf ct (body_events tcs) st =
           Inr (st\<lparr>clock := t, consumed := consumed st + bytes_of tcs\<rparr>)"
    using run_draining[OF assms] by blast
  then show ?thesis using assms by (simp add: run_append deliver_def)
qed

lemma demo_declared: "declared_oversize demo_node default_config declared_50MB"
  by (simp add: declared_oversize_def declared_50MB_def demo_node_def default_config_def)

lemma demo_declared_head:
  "statusCode declared_50MB = 200 \<and> startsWith (contentTypeOf declared_50MB) ''image/''"
  by (simp add: declared_50MB_def contentTypeOf_def startsWith_def)

text \<open>
  Claim C5, as amended. For every upstream response with status 200 and an image content
  type whose declared \<open>Content-Length\<close> is a finite number above \<open>maxDownloadBytes\<close>,
  answered on a response that has not been started: the callback creates no staging
  object and changes no file, and the caller receives the oversize placeholder with
  status 413. The body is not left unread: \<open>proxyRes.resume()\<close> puts the stream in flowing
  mode with no \<open>data\<close> listener, so every byte the upstream sends is read and dropped;
  none is written or relayed.
\<close>

theorem declared_oversize_rejected:
  assumes "resHead st = None" "statusCode up = 200" "startsWith (contentTypeOf up) ''image/''"
    "declared_oversize N cfg up"
  shows "\<exists>st1 st2.
           on_response N cfg cf up st = Inr st1 \<and>
           placeholder_reply N cfg oversize_text 413 st1 \<and>
           files st1 = files st \<and> effects st1 = effects st \<and> fileStream st1 = fileStream st \<and>
           consumed st1 = consumed st \<and> proxyRes st1 = Draining \<and>
           ingest N cfg cf up (body_events tcs @ [(te, End)]) st = Inr st2 \<and>
           files st2 = files st \<and> effects st2 = effects st \<and> fileStream st2 = fileStream st \<and>
           resHead st2 = resHead st1 \<and> resBody st2 = resBody st1 \<and>
           consumed st2 = consumed st + bytes_of tcs"
proof -
  define st1 where "st1 = st\<lparr>resHead := Some (413,
                    [(''Content-Type'', JStr ''image/svg+xml; charset=utf-8''),
                     (''Cache-Control'', JStr ''no-store''),
                     (''Content-Length'', JNum (of_nat (byteLength (svg_of N cfg oversize_text))))]),
                  resBody := Some (Text (svg_of N cfg oversize_text)),
                  proxyRes := Draining\<rparr>"
  have r: "on_response N cfg cf up st = Inr st1"
    unfolding st1_def by (rule on_response_reject(3)[OF assms])
  have d: "proxyRes st1 = Draining" by (simp add: st1_def)
  have i: "ingest N cfg cf up (body_events tcs @ [(te, End)]) st =
             Inr (st1\<lparr>clock := te, consumed := consumed st1 + bytes_of tcs\<rparr>)"
    by (simp add: ingest_def r run_draining_end[OF d])
  show ?thesis
    unfolding r i by (simp add: st1_def placeholder_reply_def)
qed

theorem declared_oversize_rejected_witness:
  "resHead (fresh [] 0) = None \<and>
   declared_oversize demo_node default_config declared_50MB \<and>
   (\<exists>st1 st2.
      on_response demo_node default_config ''k'' declared_50MB (fresh [] 0) = Inr st1 \<and>
      placeholder_reply demo_node default_config oversize_text 413 st1 \<and>
      files st1 = [] \<and> effects st1 = [] \<and> fileStream st1 = None \<and>
      ingest demo_node default_config ''k'' declared_50MB
        (body_events [(1, ''abc'')] @ [(2, End)]) (fresh [] 0) = Inr st2 \<and>
      files st2 = [] \<and> effects st2 = [] \<and> consumed st2 = 3)"
proof -
  have f: "resHead (fresh [] 0) = None" by (simp add: fresh_def)
  show ?thesis
    using declared_oversize_rejected[OF f conjunct1[OF demo_declared_head]
        conjunct2[OF demo_declared_head] demo_declared, of "''k''" "[(1, ''abc'')]" 2]
      f demo_declared
    by (auto simp: fresh_def bytes_of_def)
qed

text \<open>
  Claim C5 as stated says that no byte of the upstream body is fetched. With a declared
  length of 50000000 against the default ceiling and a body of three bytes, the three
  bytes are read.
\<close>

theorem declared_oversize_body_read_counterexample:
  "declared_oversize demo_node default_config declared_50MB \<and>
   (case ingest demo_node default_config ''k'' declared_50MB
           (body_events [(1, ''abc'')] @ [(2, End)]) (fresh [] 0) of
      Inl e \<Rightarrow> None
    | Inr s \<Rightarrow> Some (consumed s)) = Some 3"
proof -
  have f: "resHead (fresh [] 0) = None" by (simp add: fresh_def)
  have r: "on_response demo_node default_config ''k'' declared_50MB (fresh [] 0) =
             Inr ((fresh [] 0)\<lparr>resHead := Some (413,
                    [(''Content-Type'', JStr ''image/svg+xml; charset=utf-8''),
                     (''Cache-Control'', JStr ''no-store''),
                     (''Content-Length'', JNum (of_nat (byteLength
                        (svg_of demo_node default_config oversize_text))))]),
                  resBody := Some (Text (svg_of demo_node default_config oversize_text)),
                  proxyRes := Draining\<rparr>)"
    by (rule on_response_reject(3)[OF f conjunct1[OF demo_declared_head]
          conjunct2[OF demo_declared_head] demo_declared])
  show ?thesis
    unfolding ingest_def r by (simp add: demo_declared body_events_def deliver_def fresh_def)
qed

subsection \<open>Streaming ingestion\<close>

lemma filter_map_replace:
  "filter (\<lambda>(n, g). n \<noteq> p) (map (\<lambda>(n, g). if n = p then (n, f) else (n, g)) d)
     = filter (\<lambda>(n, g). n \<noteq> p) d"
  by (induction d) auto

lemma remove_put_entry: "remove_entry p (put_entry p f d) = remove_entry p d"
  by (simp add: remove_entry_def put_entry_def filter_map_replace)

lemma run_destroyed:
  "proxyRes st = Destroyed \<Longrightarrow> fileStream st = Some Torn \<Longrightarrow> run N cfg cf ct evs st = Inr st"
  by (induction evs) (auto simp: deliver_def written_def split: event.splits)

lemma tempFile_neq: "tempFileFor cf \<noteq> cf"
  by (simp add: tempFileFor_def)

lemma bytes_of_Cons: "bytes_of ((t, c) # tcs) = length c + bytes_of tcs"
  by (simp add: bytes_of_def)

lemma bytes_of_append: "bytes_of (a @ b) = bytes_of a + bytes_of b"
  by (simp add: bytes_of_def)

lemma ingesting_deletable: "ingesting cfg cf st \<Longrightarrow> deletable (tempFileFor cf) st"
  by (auto simp: ingesting_def deletable_def)

lemma deliver_data_write:
  assumes "ingesting cfg cf st" "downloaded st + length c \<le> maxDownloadBytes cfg"
  shows "\<exists>st1. deliver N cfg cf ct (t, Data c) st = Inr st1 \<and> ingesting cfg cf st1 \<and>
           remove_entry (tempFileFor cf) (files st1) = remove_entry (tempFileFor cf) (files st) \<and>
           effects st1 = effects st @ [Append (tempFileFor cf) c] \<and>
           consumed st1 = consumed st + length c \<and>
           downloaded st1 = downloaded st + length c \<and>
           fileStream st1 = fileStream st \<and> resBody st1 = resBody st \<and>
           files st1 = files st \<and> pending st1 = pending st @ c"
proof -
  define st0 where "st0 = st\<lparr>clock := t, consumed := consumed st + length c\<rparr>"
  have na: "\<not> aborted st0" "downloaded st0 + length c \<le> maxDownloadBytes cfg"
    using assms by (simp_all add: ingesting_def st0_def)
  have "deliver N cfg cf ct (t, Data c) st = on_data N cfg cf c st0"
    using assms(1) by (simp add: deliver_def ingesting_def st0_def)
  also have "\<dots> = Inr (write_chunk (tempFileFor cf) c (st0\<lparr>downloaded := downloaded st0 + length c\<rparr>))"
    by (rule on_data_write[OF na])
  finally have d: "deliver N cfg cf ct (t, Data c) st =
      Inr (write_chunk (tempFileFor cf) c (st0\<lparr>downloaded := downloaded st0 + length c\<rparr>))" .
  show ?thesis
    unfolding d using assms
    by (simp add: write_chunk_def st0_def ingesting_def)
qed

lemma deliver_written:
  assumes "ingesting cfg cf st"
  shows "\<exists>st1. deliver N cfg cf ct (t, Written n) st = Inr st1 \<and> ingesting cfg cf st1 \<and>
           remove_entry (tempFileFor cf) (files st1) = remove_entry (tempFileFor cf) (files st) \<and>
           effects st1 = effects st \<and> consumed st1 = consumed st \<and>
           downloaded st1 = downloaded st \<and> resBody st1 = resBody st \<and>
           (\<forall>f. map_of (files st) (tempFileFor cf) = Some f \<longrightarrow>
              (\<exists>f1. map_of (files st1) (tempFileFor cf) = Some f1 \<and>
                    content f1 @ pending st1 = content f @ pending st))"
proof -
  obtain f where f: "map_of (files st) (tempFileFor cf) = Some f" "\<not> locked f" "readable f"
    using assms by (auto simp: ingesting_def)
  have o: "fileStream st = Some Opened" "wpath st = tempFileFor cf"
    using assms by (simp_all add: ingesting_def)
  have d: "deliver N cfg cf ct (t, Written n) st = Inr (flush t n st)"
    by (simp add: deliver_def written_def o)
  show ?thesis
  proof (cases "take n (pending st) = []")
    case True
    then have "flush t n st = st" by (simp add: flush_def)
    then show ?thesis unfolding d using assms f by simp
  next
    case False
    have a: "take n (pending st) @ drop n (pending st) = pending st" by simp
    show ?thesis
      unfolding d using False f o assms a
      by (simp add: flush_def ingesting_def map_of_put_entry remove_put_entry)
  qed
qed

lemma deliver_data_abort:
  assumes "ingesting cfg cf st" "downloaded st + length c > maxDownloadBytes cfg"
  shows "\<exists>st1. deliver N cfg cf ct (t, Data c) st = Inr st1 \<and>
           aborted st1 \<and> proxyRes st1 = Destroyed \<and> fileStream st1 = Some Torn \<and>
           files st1 = remove_entry (tempFileFor cf) (files st) \<and>
           effects st1 = effects st @ [Unlink (tempFileFor cf)] \<and>
           consumed st1 = consumed st + length c \<and>
           placeholder_reply N cfg oversize_text 413 st1"
proof -
  define st0 where "st0 = st\<lparr>clock := t, consumed := consumed st + length c\<rparr>"
  have p: "resHead st0 = None" "\<not> aborted st0" "downloaded st0 + length c > maxDownloadBytes cfg"
    "deletable (tempFileFor cf) st0"
    using assms ingesting_deletable[OF assms(1)] by (simp_all add: ingesting_def st0_def deletable_def)
  have e: "existsSync (tempFileFor cf) st0" using assms(1)
    by (auto simp: ingesting_def existsSync_def st0_def)
  have "deliver N cfg cf ct (t, Data c) st = on_data N cfg cf c st0"
    using assms(1) by (simp add: deliver_def ingesting_def st0_def)
  then show ?thesis
    unfolding on_data_abort[OF p] using e
    by (simp add: st0_def placeholder_reply_def)
qed

lemma body_events_Cons: "body_events ((t, c) # tcs) = (t, Data c) # body_events tcs"
  by (simp add: body_events_def)

lemma appends_Cons: "appends p ((t, c) # tcs) = Append p c # appends p tcs"
  by (simp add: appends_def)

lemma chunks_of_Data: "chunks_of ((t, Data c) # evs) = (t, c) # chunks_of evs"
  by (simp add: chunks_of_def)

lemma chunks_of_Written: "chunks_of ((t, Written n) # evs) = chunks_of evs"
  by (simp add: chunks_of_def)

lemma run_flow:
  assumes "ingesting cfg cf st" "flow evs"
    "downloaded st + bytes_of (chunks_of evs) \<le> maxDownloadBytes cfg"
  shows "\<exists>st1. run N cfg cf ct evs st = Inr st1 \<and> ingesting cfg cf st1 \<and>
           remove_entry (tempFileFor cf) (files st1) = remove_entry (tempFileFor cf) (files st) \<and>
           effects st1 = effects st @ appends (tempFileFor cf) (chunks_of evs) \<and>
           consumed st1 = consumed st + bytes_of (chunks_of evs) \<and>
           downloaded st1 = downloaded st + bytes_of (chunks_of evs) \<and>
           resBody st1 = resBody st \<and>
           (\<forall>f. map_of (files st) (tempFileFor cf) = Some f \<longrightarrow>
              (\<exists>f1. map_of (files st1) (tempFileFor cf) = Some f1 \<and>
                    content f1 @ pending st1
                      = content f @ pending st @ concat (map snd (chunks_of evs))))"
  using assms
proof (induction evs arbitrary: st)
  case Nil
  then show ?case by (simp add: chunks_of_def appends_def bytes_of_def)
next
  case (Cons tev evs)
  obtain t ev where tev: "tev = (t, ev)" by (cases tev)
  have fl: "flow evs" using Cons.prems(2) by (simp add: flow_def)
  consider (data) c where "ev = Data c" | (written) n where "ev = Written n"
    using Cons.prems(2) by (cases ev) (simp_all add: flow_def tev)
  then show ?case
  proof cases
    case data
    have ch: "chunks_of (tev # evs) = (t, c) # chunks_of evs"
      by (simp add: tev data chunks_of_Data)
    have le: "downloaded st + length c \<le> maxDownloadBytes cfg"
      using Cons.prems(3) by (simp add: ch bytes_of_Cons)
    obtain s1 where s1: "deliver N cfg cf ct (t, Data c) st = Inr s1" "ingesting cfg cf s1"
        "remove_entry (tempFileFor cf) (files s1) = remove_entry (tempFileFor cf) (files st)"
        "effects s1 = effects st @ [Append (tempFileFor cf) c]"
        "consumed s1 = consumed st + length c" "downloaded s1 = downloaded st + length c"
        "resBody s1 = resBody st" "files s1 = files st" "pending s1 = pending st @ c"
      using deliver_data_write[OF Cons.prems(1) le, of N ct t] by blast
    have le1: "downloaded s1 + bytes_of (chunks_of evs) \<le> maxDownloadBytes cfg"
      using Cons.prems(3) s1(6) by (simp add: ch bytes_of_Cons)
    obtain s2 where s2: "run N cfg cf ct evs s1 = Inr s2" "ingesting cfg cf s2"
        "remove_entry (tempFileFor cf) (files s2) = remove_entry (tempFileFor cf) (files s1)"
        "effects s2 = effects s1 @ appends (tempFileFor cf) (chunks_of evs)"
        "consumed s2 = consumed s1 + bytes_of (chunks_of evs)"
        "downloaded s2 = downloaded s1 + bytes_of (chunks_of evs)"
        "resBody s2 = resBody s1"
      and w2: "\<forall>f. map_of (files s1) (tempFileFor cf) = Some f \<longrightarrow>
              (\<exists>f1. map_of (files s2) (tempFileFor cf) = Some f1 \<and>
                    content f1 @ pending s2
                      = content f @ pending s1 @ concat (map snd (chunks_of evs)))"
      using Cons.IH[OF s1(2) fl le1] by blast
    have r: "run N cfg cf ct (tev # evs) st = Inr s2"
      by (simp add: tev data s1(1) s2(1))
    have c: "\<exists>f1. map_of (files s2) (tempFileFor cf) = Some f1 \<and>
                content f1 @ pending s2
                  = content f @ pending st @ concat (map snd (chunks_of (tev # evs)))"
      if m: "map_of (files st) (tempFileFor cf) = Some f" for f
      using w2 m s1(8,9) by (auto simp: ch)
    show ?thesis
      unfolding r using s1 s2 c
      by (simp add: ch appends_Cons bytes_of_Cons)
  next
    case written
    have ch: "chunks_of (tev # evs) = chunks_of evs"
      by (simp add: tev written chunks_of_Written)
    obtain s1 where s1: "deliver N cfg cf ct (t, Written n) st = Inr s1" "ingesting cfg cf s1"
        "remove_entry (tempFileFor cf) (files s1) = remove_entry (tempFileFor cf) (files st)"
        "effects s1 = effects st" "consumed s1 = consumed st" "downloaded s1 = downloaded st"
        "resBody s1 = resBody st"
      and w1: "\<forall>f. map_of (files st) (tempFileFor cf) = Some f \<longrightarrow>
              (\<exists>f1. map_of (files s1) (tempFileFor cf) = Some f1 \<and>
                    content f1 @ pending s1 = content f @ pending st)"
      using deliver_written[OF Cons.prems(1), of N ct t n] by blast
    have le1: "downloaded s1 + bytes_of (chunks_of evs) \<le> maxDownloadBytes cfg"
      using Cons.prems(3) s1(6) by (simp add: ch)
    obtain s2 where s2: "run N cfg cf ct evs s1 = Inr s2" "ingesting cfg cf s2"
        "remove_entry (tempFileFor cf) (files s2) = remove_entry (tempFileFor cf) (files s1)"
        "effects s2 = effects s1 @ appends (tempFileFor cf) (chunks_of evs)"
        "consumed s2 = consumed s1 + bytes_of (chunks_of evs)"
        "downloaded s2 = downloaded s1 + bytes_of (chunks_of evs)"
        "resBody s2 = resBody s1"
      and w2: "\<forall>f. map_of (files s1) (tempFileFor cf) = Some f \<longrightarrow>
              (\<exists>f1. map_of (files s2) (tempFileFor cf) = Some f1 \<and>
                    content f1 @ pending s2
                      = content f @ pending s1 @ concat (map snd (chunks_of evs)))"
      using Cons.IH[OF s1(2) fl le1] by blast
    have r: "run N cfg cf ct (tev # evs) st = Inr s2"
      by (simp add: tev written s1(1) s2(1))
    have c: "\<exists>f1. map_of (files s2) (tempFileFor cf) = Some f1 \<and>
                content f1 @ pending s2
                  = content f @ pending st @ concat (map snd (chunks_of (tev # evs)))"
      if m: "map_of (files st) (tempFileFor cf) = Some f" for f
    proof -
      obtain f0 where f0: "map_of (files s1) (tempFileFor cf) = Some f0"
        "content f0 @ pending s1 = content f @ pending st"
        using w1 m by blast
      obtain f1 where f1: "map_of (files s2) (tempFileFor cf) = Some f1"
        "content f1 @ pending s2 = content f0 @ pending s1 @ concat (map snd (chunks_of evs))"
        using w2 f0(1) by blast
      have "content f1 @ pending s2
              = (content f0 @ pending s1) @ concat (map snd (chunks_of evs))"
        using f1(2) by simp
      then show ?thesis using f1(1) unfolding f0(2) ch by simp
    qed
    show ?thesis
      unfolding r using s1 s2 c
      by (simp add: ch)
  qed
qed

lemma run_exceeds:
  assumes "ingesting cfg cf st" "downloaded st + bytes_of tcs > maxDownloadBytes cfg"
  shows "\<exists>pre t c post st1.
           tcs = pre @ (t, c) # post \<and>
           downloaded st + bytes_of pre \<le> maxDownloadBytes cfg \<and>
           maxDownloadBytes cfg < downloaded st + bytes_of pre + length c \<and>
           run N cfg cf ct (body_events tcs @ rest) st = Inr st1 \<and>
           aborted st1 \<and> proxyRes st1 = Destroyed \<and> fileStream st1 = Some Torn \<and>
           files st1 = remove_entry (tempFileFor cf) (files st) \<and>
           effects st1 = effects st @ appends (tempFileFor cf) pre @ [Unlink (tempFileFor cf)] \<and>
           consumed st1 = consumed st + bytes_of pre + length c \<and>
           placeholder_reply N cfg oversize_text 413 st1"
  using assms
proof (induction tcs arbitrary: st)
  case Nil
  then show ?case by (simp add: bytes_of_def ingesting_def)
next
  case (Cons tc tcs)
  obtain t c where tc: "tc = (t, c)" by (cases tc)
  show ?case
  proof (cases "downloaded st + length c > maxDownloadBytes cfg")
    case True
    obtain s1 where s1: "deliver N cfg cf ct (t, Data c) st = Inr s1"
        "aborted s1" "proxyRes s1 = Destroyed" "fileStream s1 = Some Torn"
        "files s1 = remove_entry (tempFileFor cf) (files st)"
        "effects s1 = effects st @ [Unlink (tempFileFor cf)]"
        "consumed s1 = consumed st + length c"
        "placeholder_reply N cfg oversize_text 413 s1"
      using deliver_data_abort[OF Cons.prems(1) True, of N ct t] by blast
    have r: "run N cfg cf ct (body_events (tc # tcs) @ rest) st = Inr s1"
      by (simp add: tc body_events_Cons s1(1) run_destroyed[OF s1(3) s1(4)])
    have d: "downloaded st \<le> maxDownloadBytes cfg" using Cons.prems(1) by (simp add: ingesting_def)
    show ?thesis
      apply (rule exI[of _ "[]"], rule exI[of _ t], rule exI[of _ c], rule exI[of _ tcs],
          rule exI[of _ s1])
      using r s1 True d by (simp add: tc bytes_of_def appends_def)
  next
    case False
    then have le: "downloaded st + length c \<le> maxDownloadBytes cfg" by simp
    obtain s1 where s1: "deliver N cfg cf ct (t, Data c) st = Inr s1" "ingesting cfg cf s1"
        "remove_entry (tempFileFor cf) (files s1) = remove_entry (tempFileFor cf) (files st)"
        "effects s1 = effects st @ [Append (tempFileFor cf) c]"
        "consumed s1 = consumed st + length c" "downloaded s1 = downloaded st + length c"
      using deliver_data_write[OF Cons.prems(1) le, of N ct t] by blast
    have gt: "downloaded s1 + bytes_of tcs > maxDownloadBytes cfg"
      using Cons.prems(2) s1(6) by (simp add: tc bytes_of_Cons)
    obtain pre t' c' post s2 where s2: "tcs = pre @ (t', c') # post"
        "downloaded s1 + bytes_of pre \<le> maxDownloadBytes cfg"
        "maxDownloadBytes cfg < downloaded s1 + bytes_of pre + length c'"
        "run N cfg cf ct (body_events tcs @ rest) s1 = Inr s2"
        "aborted s2" "proxyRes s2 = Destroyed" "fileStream s2 = Some Torn"
        "files s2 = remove_entry (tempFileFor cf) (files s1)"
        "effects s2 = effects s1 @ appends (tempFileFor cf) pre @ [Unlink (tempFileFor cf)]"
        "consumed s2 = consumed s1 + bytes_of pre + length c'"
        "placeholder_reply N cfg oversize_text 413 s2"
      using Cons.IH[OF s1(2) gt] by blast
    have r: "run N cfg cf ct (body_events (tc # tcs) @ rest) st = Inr s2"
      by (simp add: tc body_events_Cons s1(1) s2(4))
    show ?thesis
      apply (rule exI[of _ "(t, c) # pre"], rule exI[of _ t'], rule exI[of _ c'],
          rule exI[of _ post], rule exI[of _ s2])
      using r s1 s2 by (simp add: tc bytes_of_Cons appends_Cons)
  qed
qed

lemma accepted_ingesting:
  assumes "resHead st = None"
  shows "ingesting cfg cf ((createWriteStream (tempFileFor cf) st)
                  \<lparr>downloaded := 0, aborted := False, proxyRes := Ingesting\<rparr>)"
  using assms by (simp add: ingesting_def createWriteStream_def map_of_put_entry own_file_def)

text \<open>
  Claim C1. Take an upstream response that passes the header checks (status 200, image
  type, no declared oversize: the length header may be absent, wrong or unreadable) and
  whose body chunks add up to more than \<open>maxDownloadBytes\<close>. The chunks split as
  \<open>pre\<close>, one chunk \<open>c\<close>, \<open>post\<close>, where \<open>pre\<close> stays within the ceiling and \<open>c\<close> crosses
  it. The listener aborts in the call that receives \<open>c\<close>: only \<open>pre\<close> was ever written,
  \<open>c\<close> is the last chunk read, the streams are destroyed, the staging file is removed and
  nothing else in the directory is touched (so no payload is published), and the caller
  receives the oversize placeholder with status 413. Whatever events follow change
  nothing.
\<close>

theorem oversize_stream_aborts:
  assumes "resHead st = None" "statusCode up = 200" "startsWith (contentTypeOf up) ''image/''"
    "\<not> declared_oversize N cfg up" "bytes_of tcs > maxDownloadBytes cfg"
  shows "\<exists>pre t c post st'.
           tcs = pre @ (t, c) # post \<and>
           bytes_of pre \<le> maxDownloadBytes cfg \<and>
           maxDownloadBytes cfg < bytes_of pre + length c \<and>
           ingest N cfg cf up (body_events tcs @ rest) st = Inr st' \<and>
           aborted st' \<and> proxyRes st' = Destroyed \<and> fileStream st' = Some Torn \<and>
           files st' = remove_entry (tempFileFor cf) (files st) \<and>
           effects st' = effects st @ [Create (tempFileFor cf)]
                          @ appends (tempFileFor cf) pre @ [Unlink (tempFileFor cf)] \<and>
           consumed st' = consumed st + bytes_of pre + length c \<and>
           placeholder_reply N cfg oversize_text 413 st'"
proof -
  define st0 where "st0 = (createWriteStream (tempFileFor cf) st)
                  \<lparr>downloaded := 0, aborted := False, proxyRes := Ingesting\<rparr>"
  have r: "on_response N cfg cf up st = Inr st0"
    unfolding st0_def by (rule on_response_accept[OF assms(2,3,4)])
  have i: "ingesting cfg cf st0" unfolding st0_def by (rule accepted_ingesting[OF assms(1)])
  have g: "downloaded st0 + bytes_of tcs > maxDownloadBytes cfg"
    using assms(5) by (simp add: st0_def)
  have z: "downloaded st0 = 0" "consumed st0 = consumed st"
    "effects st0 = effects st @ [Create (tempFileFor cf)]"
    "remove_entry (tempFileFor cf) (files st0) = remove_entry (tempFileFor cf) (files st)"
    by (simp_all add: st0_def createWriteStream_def remove_put_entry)
  from run_exceeds[OF i g, of N "contentTypeOf up" rest]
  show ?thesis
    unfolding ingest_def r z by simp
qed

lemma filter_filter_names:
  "filter (\<lambda>(n, f). n \<notin> R) (filter (\<lambda>(n, f). n \<notin> S) d) = filter (\<lambda>(n, f). n \<notin> R \<union> S) d"
  by (induction d) auto

lemma remove_entry_filter: "remove_entry p d = filter (\<lambda>(n, f). n \<notin> {p}) d"
  by (simp add: remove_entry_def)

lemma unlinkSync_cases:
  "(\<exists>err. unlinkSync p st = Inl err) \<or>
   unlinkSync p st = Inr (st\<lparr>files := filter (\<lambda>(n, f). n \<notin> {p}) (files st),
                            effects := effects st @ [Unlink p]\<rparr>)"
  by (auto simp: unlinkSync_def remove_entry_filter split: option.splits)

lemma evict_loop_shape:
  "\<exists>R evs. evict_loop limit cur es st =
             st\<lparr>files := filter (\<lambda>(n, f). n \<notin> R) (files st), effects := effects st @ evs\<rparr> \<and>
           list_all eviction_effect evs"
proof (induction es arbitrary: cur st)
  case Nil
  show ?case by (rule exI[of _ "{}"], rule exI[of _ "[]"]) simp
next
  case (Cons e es)
  have keep: "\<exists>R evs. st =
             st\<lparr>files := filter (\<lambda>(n, f). n \<notin> R) (files st), effects := effects st @ evs\<rparr> \<and>
           list_all eviction_effect evs"
    by (rule exI[of _ "{}"], rule exI[of _ "[]"]) simp
  have step: "\<exists>R evs. evict_loop limit c es s1 =
             st\<lparr>files := filter (\<lambda>(n, f). n \<notin> R) (files st), effects := effects st @ evs\<rparr> \<and>
           list_all eviction_effect evs"
    if "s1 = st\<lparr>files := filter (\<lambda>(n, f). n \<notin> S) (files st), effects := effects st @ ev1\<rparr>"
      "list_all eviction_effect ev1" for s1 S ev1 c
  proof -
    obtain R evs where "evict_loop limit c es s1 =
             s1\<lparr>files := filter (\<lambda>(n, f). n \<notin> R) (files s1), effects := effects s1 @ evs\<rparr>"
      "list_all eviction_effect evs"
      using Cons.IH[of c s1] by blast
    then have "evict_loop limit c es s1 =
             st\<lparr>files := filter (\<lambda>(n, f). n \<notin> R \<union> S) (files st),
                effects := effects st @ (ev1 @ evs)\<rparr> \<and> list_all eviction_effect (ev1 @ evs)"
      using that by (simp del: filter_filter add: filter_filter_names)
    then show ?thesis by blast
  qed
  show ?case
  proof (cases "cur \<le> int limit")
    case True
    then show ?thesis using keep by simp
  next
    case False
    consider (fail) err where "unlinkSync (cname e) st = Inl err"
      | (ok) "unlinkSync (cname e) st =
                Inr (st\<lparr>files := filter (\<lambda>(n, f). n \<notin> {cname e}) (files st),
                       effects := effects st @ [Unlink (cname e)]\<rparr>)"
      using unlinkSync_cases[of "cname e" st] by blast
    then show ?thesis
    proof cases
      case fail
      have "\<exists>R evs. evict_loop limit cur es (st\<lparr>effects := effects st @ [Warn (cname e)]\<rparr>) =
             st\<lparr>files := filter (\<lambda>(n, f). n \<notin> R) (files st), effects := effects st @ evs\<rparr> \<and>
           list_all eviction_effect evs"
        by (rule step[where S = "{}" and ?ev1.0 = "[Warn (cname e)]"]) simp_all
      then show ?thesis using False fail by simp
    next
      case ok
      define s1 where "s1 = st\<lparr>files := filter (\<lambda>(n, f). n \<notin> {cname e}) (files st),
                       effects := effects st @ [Unlink (cname e)]\<rparr>"
      consider (nometa) "\<not> existsSync (metadataPathFor (cname e)) s1"
        | (mfail) err where "existsSync (metadataPathFor (cname e)) s1"
            "unlinkSync (metadataPathFor (cname e)) s1 = Inl err"
        | (mok) "existsSync (metadataPathFor (cname e)) s1"
            "unlinkSync (metadataPathFor (cname e)) s1 =
               Inr (s1\<lparr>files := filter (\<lambda>(n, f). n \<notin> {metadataPathFor (cname e)}) (files s1),
                       effects := effects s1 @ [Unlink (metadataPathFor (cname e))]\<rparr>)"
        using unlinkSync_cases[of "metadataPathFor (cname e)" s1] by blast
      then show ?thesis
      proof cases
        case nometa
        have "\<exists>R evs. evict_loop limit (cur - int (csize e)) es s1 =
             st\<lparr>files := filter (\<lambda>(n, f). n \<notin> R) (files st), effects := effects st @ evs\<rparr> \<and>
           list_all eviction_effect evs"
          by (rule step[where S = "{cname e}" and ?ev1.0 = "[Unlink (cname e)]"]) (simp_all add: s1_def)
        then show ?thesis using False ok nometa by (simp add: s1_def)
      next
        case mfail
        have "\<exists>R evs. evict_loop limit cur es (s1\<lparr>effects := effects s1 @ [Warn (cname e)]\<rparr>) =
             st\<lparr>files := filter (\<lambda>(n, f). n \<notin> R) (files st), effects := effects st @ evs\<rparr> \<and>
           list_all eviction_effect evs"
          by (rule step[where S = "{cname e}" and ?ev1.0 = "[Unlink (cname e), Warn (cname e)]"]) (simp_all add: s1_def)
        then show ?thesis using False ok mfail by (simp add: s1_def)
      next
        case mok
        have "\<exists>R evs. evict_loop limit (cur - int (csize e)) es
                 (s1\<lparr>files := filter (\<lambda>(n, f). n \<notin> {metadataPathFor (cname e)}) (files s1),
                       effects := effects s1 @ [Unlink (metadataPathFor (cname e))]\<rparr>) =
             st\<lparr>files := filter (\<lambda>(n, f). n \<notin> R) (files st), effects := effects st @ evs\<rparr> \<and>
           list_all eviction_effect evs"
          by (rule step[where S = "{metadataPathFor (cname e)} \<union> {cname e}"
                and ?ev1.0 = "[Unlink (cname e), Unlink (metadataPathFor (cname e))]"])
             (simp_all add: s1_def case_prod_unfold)
        then show ?thesis using False ok mok by (simp add: s1_def)
      qed
    qed
  qed
qed

lemma enforceCacheLimit_shape:
  "\<exists>R evs. enforceCacheLimit cfg st =
             st\<lparr>files := filter (\<lambda>(n, f). n \<notin> R) (files st),
                effects := effects st @ Readdir # evs\<rparr> \<and>
           list_all eviction_effect evs"
proof (cases "totalSize (st\<lparr>effects := effects st @ [Readdir]\<rparr>) \<le> maxCacheBytes cfg")
  case True
  show ?thesis
    by (rule exI[of _ "{}"], rule exI[of _ "[]"]) (use True in \<open>simp add: enforceCacheLimit_def Let_def\<close>)
next
  case False
  define s0 where "s0 = st\<lparr>effects := effects st @ [Readdir]\<rparr>"
  obtain R evs where "evict_loop (maxCacheBytes cfg) (int (totalSize s0))
                        (sort_key cmtime (candidates s0)) s0 =
             s0\<lparr>files := filter (\<lambda>(n, f). n \<notin> R) (files s0), effects := effects s0 @ evs\<rparr>"
      "list_all eviction_effect evs"
    using evict_loop_shape by blast
  then have "enforceCacheLimit cfg st =
             st\<lparr>files := filter (\<lambda>(n, f). n \<notin> R) (files st),
                effects := effects st @ Readdir # evs\<rparr> \<and> list_all eviction_effect evs"
    using False by (simp add: enforceCacheLimit_def s0_def Let_def)
  then show ?thesis by blast
qed

lemma publish_result:
  assumes "map_of (files s) (tempFileFor cf) = Some f"
  shows "publish N cfg cf ct s =
           Inr (enforceCacheLimit cfg
                  (s\<lparr>fileStream := Some Ended,
                     wpath := (if wpath s = tempFileFor cf then cf else wpath s),
                     files := put_entry (metadataPathFor cf)
                                (own_file (metadata_text N ct (downloaded s) (clock s)) (clock s))
                                (put_entry cf f (remove_entry (tempFileFor cf) (files s))),
                     effects := effects s @ [CloseFile (tempFileFor cf),
                                             Rename (tempFileFor cf) cf,
                                             WriteFile (metadataPathFor cf)
                                               (metadata_text N ct (downloaded s) (clock s))]\<rparr>))"
  using assms
  by (cases "wpath s = tempFileFor cf")
     (simp_all add: publish_def renameSync_def writeMetadata_def writeFileSync_def metadataOf_def
        metadata_text_def Let_def)

lemma publish_missing:
  assumes "map_of (files s) (tempFileFor cf) = None"
  shows "publish N cfg cf ct s = Inl ENOENT"
  using assms by (simp add: publish_def renameSync_def Let_def)

lemma end_publishes:
  assumes "proxyRes s = Ingesting" "\<not> aborted s" "map_of (files s) (tempFileFor cf) = Some f"
  shows "\<exists>s2 R evs.
           publish N cfg cf ct (s\<lparr>clock := te\<rparr>) = Inr s2 \<and>
           deliver N cfg cf ct (te, End) s = serveFresh cf ct s2 \<and>
           effects s2 =
             effects s @ [CloseFile (tempFileFor cf), Rename (tempFileFor cf) cf,
                WriteFile (metadataPathFor cf) (metadata_text N ct (downloaded s) te)]
             @ Readdir # evs \<and>
           list_all eviction_effect evs \<and>
           files s2 =
             filter (\<lambda>(n, g). n \<notin> R)
               (put_entry (metadataPathFor cf)
                  (own_file (metadata_text N ct (downloaded s) te) te)
                  (put_entry cf f (remove_entry (tempFileFor cf) (files s)))) \<and>
           pending s2 = pending s \<and> fileStream s2 = Some Ended \<and>
           (wpath s = tempFileFor cf \<longrightarrow> wpath s2 = cf)"
proof -
  define s' where "s' = s\<lparr>clock := te\<rparr>"
  have p': "map_of (files s') (tempFileFor cf) = Some f" using assms(3) by (simp add: s'_def)
  define pre where "pre = s'\<lparr>fileStream := Some Ended,
                     wpath := (if wpath s' = tempFileFor cf then cf else wpath s'),
                     files := put_entry (metadataPathFor cf)
                                (own_file (metadata_text N ct (downloaded s') (clock s')) (clock s'))
                                (put_entry cf f (remove_entry (tempFileFor cf) (files s'))),
                     effects := effects s' @ [CloseFile (tempFileFor cf),
                                             Rename (tempFileFor cf) cf,
                                             WriteFile (metadataPathFor cf)
                                               (metadata_text N ct (downloaded s') (clock s'))]\<rparr>"
  have pub: "publish N cfg cf ct s' = Inr (enforceCacheLimit cfg pre)"
    unfolding pre_def by (rule publish_result[OF p'])
  obtain R evs where sh: "enforceCacheLimit cfg pre =
             pre\<lparr>files := filter (\<lambda>(n, f). n \<notin> R) (files pre),
                effects := effects pre @ Readdir # evs\<rparr>" "list_all eviction_effect evs"
    using enforceCacheLimit_shape by blast
  have na': "\<not> aborted s'" using assms(2) by (simp add: s'_def)
  have "deliver N cfg cf ct (te, End) s = on_end N cfg cf ct s'"
    using assms(1) by (simp add: deliver_def s'_def)
  also have "\<dots> = serveFresh cf ct (enforceCacheLimit cfg pre)"
    using na' by (simp add: on_end_def pub)
  finally have d: "deliver N cfg cf ct (te, End) s = serveFresh cf ct (enforceCacheLimit cfg pre)" .
  have ef: "effects (enforceCacheLimit cfg pre) =
             effects s @ [CloseFile (tempFileFor cf), Rename (tempFileFor cf) cf,
                WriteFile (metadataPathFor cf) (metadata_text N ct (downloaded s) te)]
             @ Readdir # evs"
    unfolding sh(1) by (simp add: pre_def s'_def)
  have fs: "files (enforceCacheLimit cfg pre) =
             filter (\<lambda>(n, g). n \<notin> R)
               (put_entry (metadataPathFor cf)
                  (own_file (metadata_text N ct (downloaded s) te) te)
                  (put_entry cf f (remove_entry (tempFileFor cf) (files s))))"
    unfolding sh(1) by (simp add: pre_def s'_def)
  have ot: "pending (enforceCacheLimit cfg pre) = pending s"
    "fileStream (enforceCacheLimit cfg pre) = Some Ended"
    "wpath s = tempFileFor cf \<longrightarrow> wpath (enforceCacheLimit cfg pre) = cf"
    unfolding sh(1) by (simp_all add: pre_def s'_def)
  show ?thesis
    apply (rule exI[of _ "enforceCacheLimit cfg pre"], rule exI[of _ R], rule exI[of _ evs])
    using pub d ef fs sh(2) ot by (simp add: s'_def)
qed

lemma end_missing:
  assumes "proxyRes s = Ingesting" "\<not> aborted s" "map_of (files s) (tempFileFor cf) = None"
  shows "deliver N cfg cf ct (te, End) s = Inl ENOENT"
proof -
  have "map_of (files (s\<lparr>clock := te\<rparr>)) (tempFileFor cf) = None" using assms(3) by simp
  from publish_missing[OF this] show ?thesis
    using assms(1,2) by (simp add: deliver_def on_end_def)
qed

lemma accepted_flow:
  assumes "resHead st = None" "statusCode up = 200" "startsWith (contentTypeOf up) ''image/''"
    "\<not> declared_oversize N cfg up" "flow evs"
    "bytes_of (chunks_of evs) \<le> maxDownloadBytes cfg"
  shows "\<exists>s1 payload.
           ingest N cfg cf up evs st = Inr s1 \<and> proxyRes s1 = Ingesting \<and> \<not> aborted s1 \<and>
           map_of (files s1) (tempFileFor cf) = Some payload \<and>
           content payload @ pending s1 = concat (map snd (chunks_of evs)) \<and>
           downloaded s1 = bytes_of (chunks_of evs) \<and>
           wpath s1 = tempFileFor cf \<and>
           remove_entry (tempFileFor cf) (files s1) = remove_entry (tempFileFor cf) (files st) \<and>
           effects s1 =
             effects st @ [Create (tempFileFor cf)] @ appends (tempFileFor cf) (chunks_of evs)"
proof -
  define ct where "ct = contentTypeOf up"
  define st0 where "st0 = (createWriteStream (tempFileFor cf) st)
                  \<lparr>downloaded := 0, aborted := False, proxyRes := Ingesting\<rparr>"
  have r: "on_response N cfg cf up st = Inr st0"
    unfolding st0_def by (rule on_response_accept[OF assms(2,3,4)])
  have i: "ingesting cfg cf st0" unfolding st0_def by (rule accepted_ingesting[OF assms(1)])
  have g: "downloaded st0 + bytes_of (chunks_of evs) \<le> maxDownloadBytes cfg"
    using assms(6) by (simp add: st0_def)
  have z: "downloaded st0 = 0" "pending st0 = []"
    "effects st0 = effects st @ [Create (tempFileFor cf)]"
    "remove_entry (tempFileFor cf) (files st0) = remove_entry (tempFileFor cf) (files st)"
    "map_of (files st0) (tempFileFor cf) = Some (own_file [] (clock st))"
    by (simp_all add: st0_def createWriteStream_def remove_put_entry map_of_put_entry)
  obtain s1 where s1: "run N cfg cf ct evs st0 = Inr s1" "ingesting cfg cf s1"
      "remove_entry (tempFileFor cf) (files s1) = remove_entry (tempFileFor cf) (files st0)"
      "effects s1 = effects st0 @ appends (tempFileFor cf) (chunks_of evs)"
      "downloaded s1 = downloaded st0 + bytes_of (chunks_of evs)"
    and w: "\<forall>f. map_of (files st0) (tempFileFor cf) = Some f \<longrightarrow>
              (\<exists>f1. map_of (files s1) (tempFileFor cf) = Some f1 \<and>
                    content f1 @ pending s1
                      = content f @ pending st0 @ concat (map snd (chunks_of evs)))"
    using run_flow[OF i assms(5) g, of N ct] by blast
  obtain payload where p: "map_of (files s1) (tempFileFor cf) = Some payload"
      "content payload @ pending s1 = concat (map snd (chunks_of evs))"
    using w z(2,5) by (auto simp: own_file_def)
  have i1: "ingest N cfg cf up evs st = Inr s1"
    by (simp add: ingest_def r ct_def[symmetric] s1(1))
  have q: "proxyRes s1 = Ingesting" "\<not> aborted s1" "wpath s1 = tempFileFor cf"
    using s1(2) by (simp_all add: ingesting_def)
  show ?thesis
    apply (rule exI[of _ s1], rule exI[of _ payload])
    using i1 q p s1(3,4,5) z by simp
qed

text \<open>
  Claim C3, as amended. Take an upstream response that passes the header checks and a
  run of its body, chunks and completed writes in any order, that stays within the
  ceiling. Then the ingestion is still in progress: the staging file is in the directory,
  it and the queue of the write stream hold the bytes of the stream between them, and
  the effects so far are the creation of the staging file and one write per chunk. For
  every state of an ingestion in progress in which the staging file is in the directory,
  whatever else happened to the directory before, the \<open>end\<close> listener does this and
  nothing else, in this order: it ends the write stream, renames the staging file to the
  payload path (one rename; the payload path is never written to, and the write stream
  follows the file), writes the metadata record, and runs the eviction pass, which lists
  the directory and then unlinks or warns. The response to the caller comes after all of
  them. The renamed file holds what had been written to the disk by then; the queue is
  untouched. When the staging file is no longer in the directory, the rename raises and
  nothing is published, recorded or evicted.
\<close>

theorem publish_order:
  assumes "resHead st = None" "statusCode up = 200" "startsWith (contentTypeOf up) ''image/''"
    "\<not> declared_oversize N cfg up" "flow evs"
    "bytes_of (chunks_of evs) \<le> maxDownloadBytes cfg"
  shows
   "(\<exists>s1 payload.
       ingest N cfg cf up evs st = Inr s1 \<and> proxyRes s1 = Ingesting \<and> \<not> aborted s1 \<and>
       map_of (files s1) (tempFileFor cf) = Some payload \<and>
       content payload @ pending s1 = concat (map snd (chunks_of evs)) \<and>
       downloaded s1 = bytes_of (chunks_of evs) \<and>
       wpath s1 = tempFileFor cf \<and>
       remove_entry (tempFileFor cf) (files s1) = remove_entry (tempFileFor cf) (files st) \<and>
       effects s1 =
         effects st @ [Create (tempFileFor cf)] @ appends (tempFileFor cf) (chunks_of evs)) \<and>
    (\<forall>(s :: state) f. proxyRes s = Ingesting \<and> \<not> aborted s \<and>
           map_of (files s) (tempFileFor cf) = Some f \<longrightarrow>
       (\<exists>s2 R evs'.
           publish N cfg cf ct (s\<lparr>clock := te\<rparr>) = Inr s2 \<and>
           deliver N cfg cf ct (te, End) s = serveFresh cf ct s2 \<and>
           effects s2 =
             effects s @ [CloseFile (tempFileFor cf), Rename (tempFileFor cf) cf,
                WriteFile (metadataPathFor cf) (metadata_text N ct (downloaded s) te)]
             @ Readdir # evs' \<and>
           list_all eviction_effect evs' \<and>
           files s2 =
             filter (\<lambda>(n, g). n \<notin> R)
               (put_entry (metadataPathFor cf)
                  (own_file (metadata_text N ct (downloaded s) te) te)
                  (put_entry cf f (remove_entry (tempFileFor cf) (files s)))) \<and>
           pending s2 = pending s \<and> fileStream s2 = Some Ended \<and>
           (wpath s = tempFileFor cf \<longrightarrow> wpath s2 = cf))) \<and>
    (\<forall>(s :: state). proxyRes s = Ingesting \<and> \<not> aborted s \<and>
           map_of (files s) (tempFileFor cf) = None \<longrightarrow>
       deliver N cfg cf ct (te, End) s = Inl ENOENT)"
proof (intro conjI allI impI)
  show "\<exists>s1 payload.
       ingest N cfg cf up evs st = Inr s1 \<and> proxyRes s1 = Ingesting \<and> \<not> aborted s1 \<and>
       map_of (files s1) (tempFileFor cf) = Some payload \<and>
       content payload @ pending s1 = concat (map snd (chunks_of evs)) \<and>
       downloaded s1 = bytes_of (chunks_of evs) \<and>
       wpath s1 = tempFileFor cf \<and>
       remove_entry (tempFileFor cf) (files s1) = remove_entry (tempFileFor cf) (files st) \<and>
       effects s1 =
         effects st @ [Create (tempFileFor cf)] @ appends (tempFileFor cf) (chunks_of evs)"
    by (rule accepted_flow[OF assms])
next
  fix s :: state and f
  assume "proxyRes s = Ingesting \<and> \<not> aborted s \<and> map_of (files s) (tempFileFor cf) = Some f"
  then have a: "proxyRes s = Ingesting" "\<not> aborted s" "map_of (files s) (tempFileFor cf) = Some f"
    by simp_all
  show "\<exists>s2 R evs'.
           publish N cfg cf ct (s\<lparr>clock := te\<rparr>) = Inr s2 \<and>
           deliver N cfg cf ct (te, End) s = serveFresh cf ct s2 \<and>
           effects s2 =
             effects s @ [CloseFile (tempFileFor cf), Rename (tempFileFor cf) cf,
                WriteFile (metadataPathFor cf) (metadata_text N ct (downloaded s) te)]
             @ Readdir # evs' \<and>
           list_all eviction_effect evs' \<and>
           files s2 =
             filter (\<lambda>(n, g). n \<notin> R)
               (put_entry (metadataPathFor cf)
                  (own_file (metadata_text N ct (downloaded s) te) te)
                  (put_entry cf f (remove_entry (tempFileFor cf) (files s)))) \<and>
           pending s2 = pending s \<and> fileStream s2 = Some Ended \<and>
           (wpath s = tempFileFor cf \<longrightarrow> wpath s2 = cf)"
    by (rule end_publishes[OF a])
next
  fix s :: state
  assume "proxyRes s = Ingesting \<and> \<not> aborted s \<and> map_of (files s) (tempFileFor cf) = None"
  then have a: "proxyRes s = Ingesting" "\<not> aborted s" "map_of (files s) (tempFileFor cf) = None"
    by simp_all
  show "deliver N cfg cf ct (te, End) s = Inl ENOENT" by (rule end_missing[OF a])
qed

lemma demo_accept:
  "statusCode image_ok = 200" "startsWith (contentTypeOf image_ok) ''image/''"
  "\<not> declared_oversize demo_node small_config image_ok"
  by (simp_all add: image_ok_def contentTypeOf_def startsWith_def declared_oversize_def)

lemma fresh_head: "resHead (fresh d t) = None"
  by (simp add: fresh_def)

theorem oversize_stream_aborts_witness:
  "resHead (fresh [] 0) = None \<and> statusCode image_ok = 200 \<and>
   startsWith (contentTypeOf image_ok) ''image/'' \<and>
   \<not> declared_oversize demo_node small_config image_ok \<and>
   bytes_of [(1, ''abc''), (2, ''def''), (3, ''gh'')] > maxDownloadBytes small_config \<and>
   (\<exists>pre t c post st'.
      [(1, ''abc''), (2, ''def''), (3, ''gh'')] = pre @ (t, c) # post \<and>
      bytes_of pre \<le> maxDownloadBytes small_config \<and>
      maxDownloadBytes small_config < bytes_of pre + length c \<and>
      ingest demo_node small_config ''k'' image_ok
        (body_events [(1, ''abc''), (2, ''def''), (3, ''gh'')] @ [(4, End)]) (fresh [] 0) = Inr st' \<and>
      aborted st' \<and> proxyRes st' = Destroyed \<and> fileStream st' = Some Torn \<and>
      files st' = [] \<and>
      effects st' = [Create (tempFileFor ''k'')] @ appends (tempFileFor ''k'') pre
                     @ [Unlink (tempFileFor ''k'')] \<and>
      consumed st' = bytes_of pre + length c \<and>
      placeholder_reply demo_node small_config oversize_text 413 st')"
proof -
  have b: "bytes_of [(1, ''abc''), (2, ''def''), (3, ''gh'')] > maxDownloadBytes small_config"
    by (simp add: bytes_of_def small_config_def default_config_def)
  have f: "files (fresh [] 0) = []" "effects (fresh [] 0) = []" "consumed (fresh [] 0) = 0"
    by (simp_all add: fresh_def)
  show ?thesis
    using oversize_stream_aborts[OF fresh_head[of "[]" 0] demo_accept b,
        where cf = "''k''" and rest = "[(4, End)]"]
      fresh_head[of "[]" 0] demo_accept b
    by (simp add: f remove_entry_def)
qed

lemma small_config_limits:
  "maxDownloadBytes small_config = 5" "maxCacheBytes small_config = 6"
  by (simp_all add: small_config_def)

lemma ingest_snoc:
  "ingest N cfg cf up evs st = Inr s1 \<Longrightarrow>
   ingest N cfg cf up (evs @ [ev]) st = deliver N cfg cf (contentTypeOf up) ev s1"
  by (auto simp: ingest_def run_append split: sum.splits)

lemma trickle_flow:
  "flow trickle" "chunks_of trickle = [(1, ''abc''), (3, ''de'')]"
  "bytes_of (chunks_of trickle) \<le> maxDownloadBytes small_config"
  by (simp_all add: trickle_def flow_def chunks_of_def bytes_of_def small_config_limits)

lemma trickle_state:
  "(case ingest demo_node small_config ''k'' image_ok trickle (fresh [] 0) of
      Inl e \<Rightarrow> None
    | Inr s \<Rightarrow> Some (map (\<lambda>(n, f). (n, content f)) (files s), pending s))
     = Some ([(''k.tmp'', ''ab'')], ''cde'')"
  unfolding ingest_def on_response_accept[OF demo_accept]
  by (simp add: trickle_def deliver_def on_data_def Let_def small_config_limits
      createWriteStream_def write_chunk_def written_def flush_def put_entry_def own_file_def
      tempFileFor_def fresh_def)

lemma trickle_end:
  "(case ingest demo_node small_config ''k'' image_ok (trickle @ [(4, End)]) (fresh [] 0) of
      Inl e \<Rightarrow> None
    | Inr s \<Rightarrow> Some (resHead s, resBody s, map (\<lambda>(n, f). (n, content f)) (files s), pending s))
     = Some (Some (200, [(''Content-Type'', JStr ''image/png''), (''Content-Length'', JNum 2),
                         (''Cache-Control'', JStr ''public, max-age=86400'')]),
             Some (FileStream ''k''),
             [(''k'', ''ab''), (''k.json'', png_metadata_text)], ''cde'')"
  unfolding ingest_def on_response_accept[OF demo_accept]
  by (simp add: trickle_def deliver_def on_data_def Let_def small_config_limits
      createWriteStream_def write_chunk_def written_def flush_def put_entry_def own_file_def
      tempFileFor_def fresh_def on_end_def publish_def renameSync_def remove_entry_def
      writeMetadata_def writeFileSync_def metadataPathFor_def metadataOf_def demo_node_def
      enforceCacheLimit_def totalSize_def candidates_def endsWith_def fsize_def
      serveFresh_def statSync_def writeHead_def header_char_ok_def pipeFile_def
      image_ok_def contentTypeOf_def png_metadata_text_def)

theorem publish_order_witness:
  "resHead (fresh [] 0) = None \<and> statusCode image_ok = 200 \<and>
   startsWith (contentTypeOf image_ok) ''image/'' \<and>
   \<not> declared_oversize demo_node small_config image_ok \<and>
   flow trickle \<and> bytes_of (chunks_of trickle) \<le> maxDownloadBytes small_config \<and>
   (\<exists>s1 payload s2 R evs'.
      ingest demo_node small_config ''k'' image_ok trickle (fresh [] 0) = Inr s1 \<and>
      map_of (files s1) (tempFileFor ''k'') = Some payload \<and>
      content payload @ pending s1 = ''abcde'' \<and>
      effects s1 = [Create (tempFileFor ''k''), Append (tempFileFor ''k'') ''abc'',
                    Append (tempFileFor ''k'') ''de''] \<and>
      ingest demo_node small_config ''k'' image_ok (trickle @ [(4, End)]) (fresh [] 0)
        = serveFresh ''k'' ''image/png'' s2 \<and>
      effects s2 =
        effects s1 @ [CloseFile (tempFileFor ''k''), Rename (tempFileFor ''k'') ''k'',
           WriteFile (metadataPathFor ''k'') (metadata_text demo_node ''image/png'' 5 4)]
        @ Readdir # evs' \<and>
      list_all eviction_effect evs' \<and>
      files s2 =
        filter (\<lambda>(n, g). n \<notin> R)
          (put_entry (metadataPathFor ''k'')
             (own_file (metadata_text demo_node ''image/png'' 5 4) 4)
             (put_entry ''k'' payload (remove_entry (tempFileFor ''k'') (files s1)))) \<and>
      pending s2 = pending s1 \<and> wpath s2 = ''k'') \<and>
   (case ingest demo_node small_config ''k'' image_ok trickle (fresh [] 0) of
      Inl e \<Rightarrow> None
    | Inr s \<Rightarrow> Some (map (\<lambda>(n, f). (n, content f)) (files s), pending s))
     = Some ([(''k.tmp'', ''ab'')], ''cde'') \<and>
   (case ingest demo_node small_config ''k'' image_ok (trickle @ [(4, End)]) (fresh [] 0) of
      Inl e \<Rightarrow> None
    | Inr s \<Rightarrow> Some (resHead s, resBody s, map (\<lambda>(n, f). (n, content f)) (files s), pending s))
     = Some (Some (200, [(''Content-Type'', JStr ''image/png''), (''Content-Length'', JNum 2),
                         (''Cache-Control'', JStr ''public, max-age=86400'')]),
             Some (FileStream ''k''),
             [(''k'', ''ab''), (''k.json'', png_metadata_text)], ''cde'')"
proof -
  note T = publish_order[OF fresh_head[of "[]" 0] demo_accept trickle_flow(1,3),
      where cf = "''k''" and ct = "''image/png''" and te = 4]
  from T[THEN conjunct1] obtain s1 payload where
    a: "ingest demo_node small_config ''k'' image_ok trickle (fresh [] 0) = Inr s1"
       "proxyRes s1 = Ingesting" "\<not> aborted s1"
       "map_of (files s1) (tempFileFor ''k'') = Some payload"
       "content payload @ pending s1 = concat (map snd (chunks_of trickle))"
       "downloaded s1 = bytes_of (chunks_of trickle)"
       "wpath s1 = tempFileFor ''k''"
       "effects s1 = effects (fresh [] 0) @ [Create (tempFileFor ''k'')]
                       @ appends (tempFileFor ''k'') (chunks_of trickle)"
    by blast
  have pre: "proxyRes s1 = Ingesting \<and> \<not> aborted s1 \<and>
             map_of (files s1) (tempFileFor ''k'') = Some payload"
    using a(2,3,4) by simp
  from T[THEN conjunct2, THEN conjunct1, rule_format, OF pre] obtain s2 R evs' where
    b: "deliver demo_node small_config ''k'' ''image/png'' (4, End) s1
          = serveFresh ''k'' ''image/png'' s2"
       "effects s2 =
          effects s1 @ [CloseFile (tempFileFor ''k''), Rename (tempFileFor ''k'') ''k'',
             WriteFile (metadataPathFor ''k'') (metadata_text demo_node ''image/png'' (downloaded s1) 4)]
          @ Readdir # evs'"
       "list_all eviction_effect evs'"
       "files s2 =
          filter (\<lambda>(n, g). n \<notin> R)
            (put_entry (metadataPathFor ''k'')
               (own_file (metadata_text demo_node ''image/png'' (downloaded s1) 4) 4)
               (put_entry ''k'' payload (remove_entry (tempFileFor ''k'') (files s1))))"
       "pending s2 = pending s1" "wpath s1 = tempFileFor ''k'' \<longrightarrow> wpath s2 = ''k''"
    by blast
  have ct: "contentTypeOf image_ok = ''image/png''" by (simp add: image_ok_def contentTypeOf_def)
  have c: "ingest demo_node small_config ''k'' image_ok (trickle @ [(4, End)]) (fresh [] 0)
             = serveFresh ''k'' ''image/png'' s2"
    using ingest_snoc[OF a(1), of "(4, End)"] b(1) by (simp add: ct)
  have n: "downloaded s1 = 5" using a(6) by (simp add: trickle_flow(2) bytes_of_def)
  have e: "effects s1 = [Create (tempFileFor ''k''), Append (tempFileFor ''k'') ''abc'',
                    Append (tempFileFor ''k'') ''de'']"
    using a(8) by (simp add: trickle_flow(2) appends_def fresh_def)
  have p: "content payload @ pending s1 = ''abcde''"
    using a(5) by (simp add: trickle_flow(2))
  have x: "\<exists>s1 payload s2 R evs'.
      ingest demo_node small_config ''k'' image_ok trickle (fresh [] 0) = Inr s1 \<and>
      map_of (files s1) (tempFileFor ''k'') = Some payload \<and>
      content payload @ pending s1 = ''abcde'' \<and>
      effects s1 = [Create (tempFileFor ''k''), Append (tempFileFor ''k'') ''abc'',
                    Append (tempFileFor ''k'') ''de''] \<and>
      ingest demo_node small_config ''k'' image_ok (trickle @ [(4, End)]) (fresh [] 0)
        = serveFresh ''k'' ''image/png'' s2 \<and>
      effects s2 =
        effects s1 @ [CloseFile (tempFileFor ''k''), Rename (tempFileFor ''k'') ''k'',
           WriteFile (metadataPathFor ''k'') (metadata_text demo_node ''image/png'' 5 4)]
        @ Readdir # evs' \<and>
      list_all eviction_effect evs' \<and>
      files s2 =
        filter (\<lambda>(n, g). n \<notin> R)
          (put_entry (metadataPathFor ''k'')
             (own_file (metadata_text demo_node ''image/png'' 5 4) 4)
             (put_entry ''k'' payload (remove_entry (tempFileFor ''k'') (files s1)))) \<and>
      pending s2 = pending s1 \<and> wpath s2 = ''k''"
    apply (rule exI[of _ s1], rule exI[of _ payload], rule exI[of _ s2], rule exI[of _ R],
        rule exI[of _ evs'])
    using a(1,4,7) p e c b(2,3,4,5,6) unfolding n by simp
  show ?thesis
    using fresh_head[of "[]" 0] demo_accept trickle_flow(1,3) x trickle_state trickle_end
    by (simp only: simp_thms)
qed

subsection \<open>Eviction candidates and cache lookup\<close>

lemma endsWith_last: "endsWith s suf \<Longrightarrow> suf \<noteq> [] \<Longrightarrow> last s = last suf"
proof -
  assume a: "endsWith s suf" "suf \<noteq> []"
  then have "s = take (length s - length suf) s @ suf"
    by (metis append_take_drop_id endsWith_def)
  then show ?thesis using a(2) by (metis last_appendR)
qed

lemma temp_not_json: "\<not> endsWith (tempFileFor cf) ''.json''"
proof
  assume "endsWith (tempFileFor cf) ''.json''"
  then have "last (tempFileFor cf) = last ''.json''" by (rule endsWith_last) simp
  then show False by (simp add: tempFileFor_def)
qed

lemma candidates_names:
  "map cname (candidates st) = filter (\<lambda>n. \<not> endsWith n ''.json'') (map fst (files st))"
  unfolding candidates_def by (induction "files st" arbitrary: st) (auto simp: filter_map comp_def case_prod_unfold)

lemma candidates_mem:
  assumes "(n, f) \<in> set (files st)" "\<not> endsWith n ''.json''"
  shows "\<lparr> cname = n, csize = fsize f, cmtime = mtime f \<rparr> \<in> set (candidates st)"
  using assms by (force simp: candidates_def)

lemma csize_le_total: "e \<in> set (candidates st) \<Longrightarrow> csize e \<le> totalSize st"
  unfolding totalSize_def by (simp add: member_le_sum_list)

lemma in_flight_eq:
  "ingest demo_node small_config ''a'' image_ok
     (body_events [(1, ''12345'')] @ [(1, Written 5)]) (fresh race_dir 0)
     = Inr in_flight"
  unfolding in_flight_def ingest_def on_response_accept[OF demo_accept]
  by (simp add: body_events_def deliver_def on_data_def Let_def small_config_limits
      split: sum.splits)

lemma in_flight_files:
  "files in_flight =
     [(''b'', own_file ''xyz'' 2), (''b.json'', own_file png_metadata_text 2),
      (''a.tmp'', own_file ''12345'' 1)]"
  "proxyRes in_flight = Ingesting" "aborted in_flight = False"
  unfolding in_flight_def ingest_def on_response_accept[OF demo_accept]
  by (simp_all add: body_events_def
      deliver_def on_data_def Let_def small_config_limits createWriteStream_def
      write_chunk_def written_def flush_def put_entry_def race_dir_def own_file_def
      tempFileFor_def fresh_def png_metadata_text_def)

lemma race_evicts:
  "files (enforceCacheLimit small_config in_flight) =
     [(''b'', own_file ''xyz'' 2), (''b.json'', own_file png_metadata_text 2)]"
  by (simp add: enforceCacheLimit_def Let_def totalSize_def candidates_def in_flight_files
      endsWith_def fsize_def own_file_def small_config_limits unlinkSync_def
      existsSync_def remove_entry_def metadataPathFor_def png_metadata_text_def)

lemma race_crash:
  "deliver demo_node small_config ''a'' ''image/png'' (3, End)
     (enforceCacheLimit small_config in_flight) = Inl ENOENT"
proof -
  obtain R evs where sh: "enforceCacheLimit small_config in_flight =
             in_flight\<lparr>files := filter (\<lambda>(n, f). n \<notin> R) (files in_flight),
                effects := effects in_flight @ Readdir # evs\<rparr>"
    using enforceCacheLimit_shape by blast
  have p: "proxyRes (enforceCacheLimit small_config in_flight) = Ingesting"
    "aborted (enforceCacheLimit small_config in_flight) = False"
    unfolding sh by (simp_all add: in_flight_files)
  show ?thesis
    using p
    by (simp add: deliver_def on_end_def publish_def renameSync_def Let_def race_evicts
        tempFileFor_def)
qed

lemma in_flight_bytes: "downloaded in_flight = 5"
  unfolding in_flight_def ingest_def on_response_accept[OF demo_accept]
  by (simp add: body_events_def deliver_def on_data_def Let_def small_config_limits
      createWriteStream_def write_chunk_def written_def flush_def)

text \<open>
  Claim C3 as stated has the three effects for every ingestion that ends cleanly within
  the ceiling. The ingestion of \<open>a\<close> receives 5 bytes against a ceiling of 5; an eviction
  pass that another request runs before the \<open>end\<close> event deletes its staging file; the
  \<open>end\<close> listener then raises in \<open>renameSync\<close>, and nothing is published, recorded or
  evicted.
\<close>

theorem publish_race_counterexample:
  "ingest demo_node small_config ''a'' image_ok
     (body_events [(1, ''12345'')] @ [(1, Written 5)]) (fresh race_dir 0) = Inr in_flight \<and>
   proxyRes in_flight = Ingesting \<and> \<not> aborted in_flight \<and>
   downloaded in_flight = 5 \<and> maxDownloadBytes small_config = 5 \<and>
   deliver demo_node small_config ''a'' ''image/png'' (3, End)
     (enforceCacheLimit small_config in_flight) = Inl ENOENT"
  using in_flight_eq in_flight_files(2,3) in_flight_bytes small_config_limits(1) race_crash
  by (simp only: simp_thms)

text \<open>
  Claim C4 says that a payload that is unreadable despite its metadata makes the lookup
  report a miss. With a valid metadata record and a payload that exists but cannot be
  opened for reading, \<open>serveCached\<close> reports a hit: \<open>statSync\<close> succeeds, the head is
  written with status 200, and \<open>createReadStream(...).pipe(res)\<close> returns without
  throwing, so the \<open>catch\<close> is not reached; the open fails later, as an \<open>error\<close> event
  with no listener.
\<close>

theorem serveCached_unreadable_payload:
  "fst (serveCached demo_node ''k'' unreadable_state) = True \<and>
   map_option fst (resHead (snd (serveCached demo_node ''k'' unreadable_state))) = Some 200 \<and>
   resBody (snd (serveCached demo_node ''k'' unreadable_state)) = Some (FileStream ''k'') \<and>
   delivered (snd (serveCached demo_node ''k'' unreadable_state)) = Inl EACCES"
  by (simp add: serveCached_def readMetadata_def readFileSync_def metadataPathFor_def
      unreadable_state_def fresh_def own_file_def demo_node_def statSync_def writeHead_def
      header_char_ok_def utimesSync_def pipeFile_def delivered_def put_entry_def Let_def
      png_metadata_text_def partial_config_text_def body_allowed_def has_body_def)

text \<open>
  The rest of claim C4 holds: a metadata record that is missing, unreadable or not
  parseable, and a payload that is absent, each give a miss and leave the state as it
  was; \<open>serveCached\<close> itself never raises.
\<close>

lemma serveCached_miss:
  "(readFileSync (metadataPathFor cf) st = Inl e \<longrightarrow> serveCached N cf st = (False, st)) \<and>
   (readFileSync (metadataPathFor cf) st = Inr raw \<and> JSON_parse N raw = None \<longrightarrow>
      serveCached N cf st = (False, st)) \<and>
   (map_of (files st) cf = None \<longrightarrow> serveCached N cf st = (False, st))"
  by (auto simp: serveCached_def readMetadata_def statSync_def Let_def split: sum.splits option.splits)

text \<open>
  Claim C9. The candidates of an eviction pass are exactly the listed names that do not
  end in \<open>.json\<close>. A staging name \<open><key>.tmp\<close> never ends in \<open>.json\<close>, so a staging
  file in the directory is a candidate and its size is part of the total. An eviction
  pass that runs between two events of an ingestion can therefore delete that
  ingestion's staging file: with a newer payload \<open>b\<close> of 3 bytes, a staging file that
  holds 5 bytes once its write has completed, and a ceiling of 6, the pass removes the
  staging file and keeps \<open>b\<close>, and the ingestion's \<open>end\<close> listener then fails in
  \<open>renameSync\<close>.
\<close>

theorem staging_is_eviction_candidate:
  "map cname (candidates st) = filter (\<lambda>n. \<not> endsWith n ''.json'') (map fst (files st)) \<and>
   \<not> endsWith (tempFileFor cf) ''.json'' \<and>
   (\<forall>f. (tempFileFor cf, f) \<in> set (files st) \<longrightarrow>
      \<lparr> cname = tempFileFor cf, csize = fsize f, cmtime = mtime f \<rparr> \<in> set (candidates st) \<and>
      fsize f \<le> totalSize st) \<and>
   ingest demo_node small_config ''a'' image_ok
     (body_events [(1, ''12345'')] @ [(1, Written 5)]) (fresh race_dir 0)
     = Inr in_flight \<and>
   existsSync (tempFileFor ''a'') in_flight \<and>
   \<not> existsSync (tempFileFor ''a'') (enforceCacheLimit small_config in_flight) \<and>
   existsSync ''b'' (enforceCacheLimit small_config in_flight) \<and>
   deliver demo_node small_config ''a'' ''image/png'' (3, End)
     (enforceCacheLimit small_config in_flight) = Inl ENOENT"
proof (intro conjI allI impI)
  show "map cname (candidates st) = filter (\<lambda>n. \<not> endsWith n ''.json'') (map fst (files st))"
    by (rule candidates_names)
  show "\<not> endsWith (tempFileFor cf) ''.json''" by (rule temp_not_json)
  show "ingest demo_node small_config ''a'' image_ok
          (body_events [(1, ''12345'')] @ [(1, Written 5)]) (fresh race_dir 0) = Inr in_flight"
    by (rule in_flight_eq)
  show "existsSync (tempFileFor ''a'') in_flight"
    by (simp add: existsSync_def in_flight_files tempFileFor_def)
  show "\<not> existsSync (tempFileFor ''a'') (enforceCacheLimit small_config in_flight)"
    by (simp add: existsSync_def race_evicts tempFileFor_def)
  show "existsSync ''b'' (enforceCacheLimit small_config in_flight)"
    by (simp add: existsSync_def race_evicts)
  show "deliver demo_node small_config ''a'' ''image/png'' (3, End)
          (enforceCacheLimit small_config in_flight) = Inl ENOENT"
    by (rule race_crash)
next
  fix f assume m: "(tempFileFor cf, f) \<in> set (files st)"
  show c: "\<lparr> cname = tempFileFor cf, csize = fsize f, cmtime = mtime f \<rparr> \<in> set (candidates st)"
    using m temp_not_json by (rule candidates_mem)
  show "fsize f \<le> totalSize st" using csize_le_total[OF c] by simp
qed

theorem staging_is_eviction_candidate_witness:
  "(tempFileFor ''a'', own_file ''12345'' 1) \<in> set (files in_flight) \<and>
   \<lparr> cname = tempFileFor ''a'', csize = fsize (own_file ''12345'' 1),
     cmtime = mtime (own_file ''12345'' 1) \<rparr> \<in> set (candidates in_flight) \<and>
   fsize (own_file ''12345'' 1) \<le> totalSize in_flight \<and>
   map cname (candidates in_flight) = [''b'', ''a.tmp'']"
proof -
  have m: "(tempFileFor ''a'', own_file ''12345'' 1) \<in> set (files in_flight)"
    by (simp add: in_flight_files tempFileFor_def)
  have n: "filter (\<lambda>n. \<not> endsWith n ''.json'') (map fst (files in_flight)) = [''b'', ''a.tmp'']"
    by (simp add: in_flight_files endsWith_def)
  show ?thesis
    using staging_is_eviction_candidate[of in_flight "''a''"] m n by simp
qed

subsection \<open>Eviction pass\<close>










































lemma stuck_remains:
  "totalSize (enforceCacheLimit small_config (fresh stuck_dir 0)) = 8 \<and>
   effects (enforceCacheLimit small_config (fresh stuck_dir 0)) = [Readdir, Warn ''d'']"
  by (simp add: enforceCacheLimit_def Let_def totalSize_def candidates_def fresh_def stuck_dir_def
      endsWith_def fsize_def byteLength_def small_config_limits unlinkSync_def)




end
